theory Spec2Isabelle
  imports Main
begin

section \<open>Entities and components\<close>

text \<open>
  An entity is a JavaScript object, identified by reference. The model keeps an explicit
  store from references to objects; an object is a finite map from component names to
  values. The value \<open>Undefined\<close> is JavaScript's \<open>undefined\<close>: a field can be an own
  field holding \<open>Undefined\<close> (\<open>Some Undefined\<close>) or not be a field at all (\<open>None\<close>), and
  reading either gives \<open>Undefined\<close>.
\<close>

type_synonym ref = nat

datatype val = Undefined | Num int | Str string | Flag bool

type_synonym obj = "string \<Rightarrow> val option"

text \<open>\<^verbatim>\<open>entity[component]\<close>: reading a field.\<close>

definition get_field :: "obj \<Rightarrow> string \<Rightarrow> val" where
  "get_field ob c = (case ob c of None \<Rightarrow> Undefined | Some v \<Rightarrow> v)"

text \<open>\<^verbatim>\<open>entity[component] = value\<close>.\<close>

definition set_field :: "obj \<Rightarrow> string \<Rightarrow> val \<Rightarrow> obj" where
  "set_field ob c v = ob(c \<mapsto> v)"

text \<open>\<^verbatim>\<open>delete entity[component]\<close>.\<close>

definition delete_field :: "obj \<Rightarrow> string \<Rightarrow> obj" where
  "delete_field ob c = ob(c := None)"

text \<open>\<^verbatim>\<open>Object.assign(entity, partial)\<close>: every own field of the partial record is
  written, also one that holds \<open>Undefined\<close>.\<close>

definition assign :: "obj \<Rightarrow> obj \<Rightarrow> obj" where
  "assign ob partial = ob ++ partial"

section \<open>Queries and derived buckets\<close>

text \<open>
  Modelled from the spec: the file \<^verbatim>\<open>buckets.ts\<close> (class \<open>EntityBucket\<close> and the
  archetype buckets derived from it) is not among the sources; \<open>World\<close> extends it and
  calls its \<open>has\<close>, \<open>evaluate\<close>, \<open>add\<close> and \<open>remove\<close>. The definitions of this section
  follow the specification's description of buckets (sections 3, 4.1, 4.2 and 4.3).

  A component is present iff reading it does not give the missing-sentinel.
\<close>

definition present :: "obj \<Rightarrow> string \<Rightarrow> bool" where
  "present ob c = (get_field ob c \<noteq> Undefined)"

record query =
  q_with :: "string list"
  q_without :: "string list"
  q_where :: "(obj \<Rightarrow> bool) option"

text \<open>Modelled from the spec: the compilation rule of a query specification
  (section 4.2, \<open>matches\<close>).\<close>

definition matches :: "query \<Rightarrow> obj \<Rightarrow> bool" where
  "matches q ob =
     (list_all (\<lambda>c. present ob c) (q_with q) \<and>
      list_all (\<lambda>c. \<not> present ob c) (q_without q) \<and>
      (case q_where q of None \<Rightarrow> True | Some p \<Rightarrow> p ob))"

text \<open>Modelled from the spec: composing a derived index with a further specification
  gives the conjunction of both (section 4.2).\<close>

definition both :: "query \<Rightarrow> query \<Rightarrow> query" where
  "both q1 q2 =
     \<lparr> q_with = q_with q1 @ q_with q2,
       q_without = q_without q1 @ q_without q2,
       q_where = (case q_where q1 of
                    None \<Rightarrow> q_where q2
                  | Some p1 \<Rightarrow> (case q_where q2 of
                                 None \<Rightarrow> Some p1
                               | Some p2 \<Rightarrow> Some (\<lambda>ob. p1 ob \<and> p2 ob))) \<rparr>"

text \<open>
  A derived bucket: its compiled query, its ordered sequence of entities and the buckets
  registered as its children. A bucket is named by its path from the World (the indices of
  the children taken); the World itself is the empty path.
\<close>

datatype archetype =
  Archetype (a_query: query) (a_entities: "ref list") (a_children: "archetype list")

type_synonym path = "nat list"

text \<open>
  The event hub is modelled by the log of the events fired. An event records the bucket
  that fired it, the entity handed to the listeners, and the fields that entity has at
  that moment, which is what a listener reading the entity sees. Listeners are observers
  here: apart from the World's own entity-removed listener, what a listener does to the
  World in turn is not part of the model.
\<close>

datatype event =
  EntityAdded (ev_bucket: path) (ev_entity: ref) (ev_fields: obj)
| EntityRemoved (ev_bucket: path) (ev_entity: ref) (ev_fields: obj)

text \<open>Visiting the registered children in order, each under its own path, and
  collecting the events in the order fired.\<close>

fun each_child :: "(nat \<Rightarrow> 'a \<Rightarrow> 'a \<times> event list) \<Rightarrow> nat \<Rightarrow> 'a list \<Rightarrow> 'a list \<times> event list" where
  "each_child f i [] = ([], [])"
| "each_child f i (x # xs) =
     (let (x', evs) = f i x; (xs', evs') = each_child f (Suc i) xs
      in (x' # xs', evs @ evs'))"

lemma each_child_cong [fundef_cong]:
  "xs = ys \<Longrightarrow> i = j \<Longrightarrow> (\<And>k x. x \<in> set ys \<Longrightarrow> f k x = g k x) \<Longrightarrow>
   each_child f i xs = each_child g j ys"
proof (induction ys arbitrary: xs i j)
  case Nil
  then show ?case by simp
next
  case (Cons y ys)
  have "each_child f (Suc j) ys = each_child g (Suc j) ys"
    by (rule Cons.IH) (simp_all add: Cons.prems)
  with Cons.prems show ?case by simp
qed

text \<open>Modelled from the spec: \<open>remove(entity)\<close> of a bucket (section 4.1): nothing if
  the entity is absent; otherwise it leaves the sequence, entity-removed fires with the
  entity as it is, and every child evicts it too.\<close>

fun remove_a :: "(ref \<Rightarrow> obj) \<Rightarrow> path \<Rightarrow> ref \<Rightarrow> archetype \<Rightarrow> archetype \<times> event list" where
  "remove_a h p e (Archetype q es chs) =
     (if e \<notin> set es then (Archetype q es chs, [])
      else
        (let (chs', evs) = each_child (\<lambda>i. remove_a h (p @ [i]) e) 0 chs
         in (Archetype q (removeAll e es) chs', EntityRemoved p e (h e) # evs)))"

text \<open>Modelled from the spec: \<open>add(entity)\<close> of a bucket (section 4.1): the entity is
  appended if the predicate holds of the test subject and it is not yet a member;
  entity-added fires and the children are told, each admitting it under its own
  predicate.\<close>

fun add_a :: "(ref \<Rightarrow> obj) \<Rightarrow> path \<Rightarrow> ref \<Rightarrow> obj \<Rightarrow> archetype \<Rightarrow> archetype \<times> event list" where
  "add_a h p e subject (Archetype q es chs) =
     (if matches q subject \<and> e \<notin> set es then
        (let (chs', evs) = each_child (\<lambda>i. add_a h (p @ [i]) e subject) 0 chs
         in (Archetype q (es @ [e]) chs', EntityAdded p e (h e) # evs))
      else (Archetype q es chs, []))"

text \<open>Modelled from the spec: \<open>evaluate(entity, hypothetical)\<close> on a derived index
  (section 4.3, step 2). The predicate is tested on the test subject, the events carry the
  real entity.\<close>

fun evaluate_a :: "(ref \<Rightarrow> obj) \<Rightarrow> path \<Rightarrow> ref \<Rightarrow> obj \<Rightarrow> archetype \<Rightarrow> archetype \<times> event list" where
  "evaluate_a h p e subject (Archetype q es chs) =
     (let wasIn = (e \<in> set es); nowIn = matches q subject in
      if wasIn \<and> \<not> nowIn then
        (let (chs', evs) = each_child (\<lambda>i. remove_a h (p @ [i]) e) 0 chs
         in (Archetype q (removeAll e es) chs', EntityRemoved p e (h e) # evs))
      else if \<not> wasIn \<and> nowIn then
        (let (chs', evs) = each_child (\<lambda>i. add_a h (p @ [i]) e subject) 0 chs
         in (Archetype q (es @ [e]) chs', EntityAdded p e (h e) # evs))
      else if wasIn then
        (let (chs', evs) = each_child (\<lambda>i. evaluate_a h (p @ [i]) e subject) 0 chs
         in (Archetype q es chs', evs))
      else (Archetype q es chs, []))"

text \<open>Modelled from the spec: deriving an index (section 4.2, \<open>archetypeOf\<close>): the new
  index is registered last among the children of its source, its predicate is the
  conjunction of the source's and the new specification, and it starts with the source's
  current members that match.\<close>

fun at_child :: "('a \<Rightarrow> 'a) \<Rightarrow> nat \<Rightarrow> 'a list \<Rightarrow> 'a list" where
  "at_child f i [] = []"
| "at_child f 0 (x # xs) = f x # xs"
| "at_child f (Suc i) (x # xs) = x # at_child f i xs"

lemma at_child_cong [fundef_cong]:
  "xs = ys \<Longrightarrow> i = j \<Longrightarrow> (\<And>x. x \<in> set ys \<Longrightarrow> f x = g x) \<Longrightarrow>
   at_child f i xs = at_child g j ys"
proof (induction g j ys arbitrary: xs i rule: at_child.induct)
  case (1 g j)
  then show ?case by simp
next
  case (2 g y ys)
  then show ?case by simp
next
  case (3 g j y ys)
  have "at_child f j ys = at_child g j ys"
    by (rule "3.IH") (simp_all add: "3.prems")
  with "3.prems" show ?case by simp
qed

fun archetypeOf_a :: "(ref \<Rightarrow> obj) \<Rightarrow> path \<Rightarrow> query \<Rightarrow> archetype \<Rightarrow> archetype" where
  "archetypeOf_a h [] spec (Archetype q es chs) =
     Archetype q es
       (chs @ [Archetype (both q spec) (filter (\<lambda>e. matches (both q spec) (h e)) es) []])"
| "archetypeOf_a h (i # p) spec (Archetype q es chs) =
     Archetype q es (at_child (archetypeOf_a h p spec) i chs)"

section \<open>The World\<close>

text \<open>
  The World of \<^verbatim>\<open>World.ts\<close>: the root bucket (its ordered sequence \<open>entities\<close> and its
  registered children \<open>archetypes\<close>) and the identity table \<open>entityToId\<close>, \<open>idToEntity\<close>,
  \<open>nextId\<close>. The state also carries the store of the entity objects (\<open>heap\<close>), which the
  operations mutate in place, and the log of the events fired. Ids are natural numbers:
  \<open>nextId++\<close> is exact on JavaScript numbers below \<open>2 ^ 53\<close>.
\<close>

record world =
  heap :: "ref \<Rightarrow> obj"
  entities :: "ref list"
  archetypes :: "archetype list"
  entityToId :: "ref \<Rightarrow> nat option"
  idToEntity :: "nat \<Rightarrow> ref option"
  nextId :: nat
  events :: "event list"

text \<open>\<^verbatim>\<open>new World(entities)\<close>: the identity table starts empty with the counter at 0;
  the constructor registers the World's own entity-removed listener (\<open>forget_id\<close> below).
  Modelled from the spec: the root bucket starts with the given sequence and no
  children.\<close>

definition new_World :: "(ref \<Rightarrow> obj) \<Rightarrow> ref list \<Rightarrow> world" where
  "new_World h es =
     \<lparr> heap = h, entities = es, archetypes = [], entityToId = Map.empty,
       idToEntity = Map.empty, nextId = 0, events = [] \<rparr>"

text \<open>Modelled from the spec: \<open>has(entity)\<close>, membership by reference.\<close>

definition has :: "world \<Rightarrow> ref \<Rightarrow> bool" where
  "has w e = (e \<in> set (entities w))"

text \<open>The listener of the constructor (\<^verbatim>\<open>World.ts\<close>, lines 8 to 15).\<close>

definition forget_id :: "world \<Rightarrow> ref \<Rightarrow> world" where
  "forget_id w e =
     (case entityToId w e of
        None \<Rightarrow> w
      | Some n \<Rightarrow> w\<lparr> idToEntity := (idToEntity w)(n := None),
                     entityToId := (entityToId w)(e := None) \<rparr>)"

text \<open>Modelled from the spec: \<open>add\<close> and \<open>remove\<close> of the root bucket (section 4.1); the
  root's predicate is always true. On removal the World's own listener runs when
  entity-removed fires.\<close>

definition add :: "world \<Rightarrow> ref \<Rightarrow> world" where
  "add w e =
     (if has w e then w
      else
        (let (chs, evs) = each_child (\<lambda>i. add_a (heap w) [i] e (heap w e)) 0 (archetypes w)
         in w\<lparr> entities := entities w @ [e], archetypes := chs,
                events := events w @ EntityAdded [] e (heap w e) # evs \<rparr>))"

text \<open>Modelled from the spec: the state in which \<open>remove\<close> fires entity-removed on the
  root (section 4.1): the entity has left the root's sequence, and the children have not
  been told yet. This is the state the listeners of that event run in.\<close>

definition remove_fired :: "world \<Rightarrow> ref \<Rightarrow> world" where
  "remove_fired w e = w\<lparr> entities := removeAll e (entities w) \<rparr>"

definition remove :: "world \<Rightarrow> ref \<Rightarrow> world" where
  "remove w e =
     (if \<not> has w e then w
      else
        (let w1 = forget_id (remove_fired w e) e;
             (chs, evs) = each_child (\<lambda>i. remove_a (heap w) [i] e) 0 (archetypes w)
         in w1\<lparr> archetypes := chs,
                 events := events w @ EntityRemoved [] e (heap w e) # evs \<rparr>))"

text \<open>Modelled from the spec: \<open>evaluate(entity, hypothetical)\<close> on the root bucket
  (section 4.3): the test subject is the hypothetical entity when one is given; the root's
  predicate is true, so it never evicts.\<close>

definition evaluate :: "world \<Rightarrow> ref \<Rightarrow> obj option \<Rightarrow> world" where
  "evaluate w e future =
     (let subject = (case future of None \<Rightarrow> heap w e | Some f \<Rightarrow> f) in
      if \<not> has w e then
        (let (chs, evs) = each_child (\<lambda>i. add_a (heap w) [i] e subject) 0 (archetypes w)
         in w\<lparr> entities := entities w @ [e], archetypes := chs,
                events := events w @ EntityAdded [] e (heap w e) # evs \<rparr>)
      else
        (let (chs, evs) = each_child (\<lambda>i. evaluate_a (heap w) [i] e subject) 0 (archetypes w)
         in w\<lparr> archetypes := chs, events := events w @ evs \<rparr>))"

text \<open>Modelled from the spec: \<open>archetypeOf\<close> at the World (the empty path) or at the
  derived index the path names.\<close>

definition archetypeOf :: "world \<Rightarrow> path \<Rightarrow> query \<Rightarrow> world" where
  "archetypeOf w p spec =
     (case p of
        [] \<Rightarrow> w\<lparr> archetypes := archetypes w @
                   [Archetype spec (filter (\<lambda>e. matches spec (heap w e)) (entities w)) []] \<rparr>
      | i # p' \<Rightarrow> w\<lparr> archetypes := at_child (archetypeOf_a (heap w) p' spec) i (archetypes w) \<rparr>)"

text \<open>
  \<^verbatim>\<open>update(entity, update?, value?)\<close> (\<^verbatim>\<open>World.ts\<close>, lines 26 to 46). The second
  argument is absent, a function, a component name with a value, or a partial record. A
  function is called with the entity; being a closure it may mutate the entity in place,
  call the World, and return a partial record or nothing. It is modelled by the state it
  leaves and the record it returns, if any. The operation returns the entity it was given;
  the model returns the state.
\<close>

datatype update_arg =
  NoUpdate
| UpdateFun "world \<Rightarrow> world \<times> obj option"
| UpdateComponent string val
| UpdatePartial obj

definition put_entity :: "world \<Rightarrow> ref \<Rightarrow> obj \<Rightarrow> world" where
  "put_entity w e ob = w\<lparr> heap := (heap w)(e := ob) \<rparr>"

text \<open>The first part of \<open>update\<close> (lines 31 to 38): the state before \<open>has\<close> is asked.\<close>

definition apply_update :: "world \<Rightarrow> ref \<Rightarrow> update_arg \<Rightarrow> world" where
  "apply_update w e u =
     (case u of
        UpdateFun fn \<Rightarrow>
          (let (w', partial) = fn w in
           case partial of
             None \<Rightarrow> w'
           | Some p \<Rightarrow> put_entity w' e (assign (heap w' e) p))
      | UpdateComponent c v \<Rightarrow> put_entity w e (set_field (heap w e) c v)
      | UpdatePartial p \<Rightarrow> put_entity w e (assign (heap w e) p)
      | NoUpdate \<Rightarrow> w)"

definition update :: "world \<Rightarrow> ref \<Rightarrow> update_arg \<Rightarrow> world" where
  "update w e u =
     (let w1 = apply_update w e u
      in if has w1 e then evaluate w1 e None else w1)"

text \<open>A function argument that only touches the entity it is given: it leaves new fields
  on the entity and may return a partial record.\<close>

definition on_entity :: "ref \<Rightarrow> (obj \<Rightarrow> obj \<times> obj option) \<Rightarrow> world \<Rightarrow> world \<times> obj option" where
  "on_entity e f w = (let (ob, partial) = f (heap w e) in (put_entity w e ob, partial))"

text \<open>\<^verbatim>\<open>addComponent(entity, component, value)\<close> (\<^verbatim>\<open>World.ts\<close>, lines 48 to 59).\<close>

definition addComponent :: "world \<Rightarrow> ref \<Rightarrow> string \<Rightarrow> val \<Rightarrow> world" where
  "addComponent w e c v =
     (if get_field (heap w e) c \<noteq> Undefined then w
      else
        (let w1 = put_entity w e (set_field (heap w e) c v)
         in if has w1 e then evaluate w1 e None else w1))"

text \<open>\<^verbatim>\<open>removeComponent(entity, component)\<close> (\<^verbatim>\<open>World.ts\<close>, lines 61 to 74).\<close>

definition removeComponent :: "world \<Rightarrow> ref \<Rightarrow> string \<Rightarrow> world" where
  "removeComponent w e c =
     (if get_field (heap w e) c = Undefined then w
      else
        (let w1 = (if has w e then evaluate w e (Some (delete_field (heap w e) c)) else w)
         in put_entity w1 e (delete_field (heap w1 e) c)))"

text \<open>\<^verbatim>\<open>id(entity)\<close> (\<^verbatim>\<open>World.ts\<close>, lines 81 to 93); \<open>None\<close> is \<open>undefined\<close>.\<close>

definition id_w :: "world \<Rightarrow> ref \<Rightarrow> world \<times> nat option" where
  "id_w w e =
     (if \<not> has w e then (w, None)
      else
        (let w1 =
           (if entityToId w e = None then
              w\<lparr> entityToId := (entityToId w)(e \<mapsto> nextId w),
                 idToEntity := (idToEntity w)(nextId w \<mapsto> e),
                 nextId := nextId w + 1 \<rparr>
            else w)
         in (w1, entityToId w1 e)))"

text \<open>\<^verbatim>\<open>entity(id)\<close> (\<^verbatim>\<open>World.ts\<close>, lines 95 to 97).\<close>

definition entity :: "world \<Rightarrow> nat \<Rightarrow> ref option" where
  "entity w n = idToEntity w n"

text \<open>The public operations, and running a sequence of them. Any code holding an entity
  may also write its fields directly, without telling the World (\<open>Mutate\<close>); the buckets are
  then stale until the next \<open>update\<close>. In a sequence, the function given to \<open>update\<close> is
  one that only touches its entity; what else it would do to the World is written as
  operations of the sequence.\<close>

datatype plain_update =
  PlainNone
| PlainFun "obj \<Rightarrow> obj \<times> obj option"
| PlainComponent string val
| PlainPartial obj

fun plain :: "ref \<Rightarrow> plain_update \<Rightarrow> update_arg" where
  "plain e PlainNone = NoUpdate"
| "plain e (PlainFun f) = UpdateFun (on_entity e f)"
| "plain e (PlainComponent c v) = UpdateComponent c v"
| "plain e (PlainPartial p) = UpdatePartial p"

datatype op =
  Add ref
| Remove ref
| Update ref plain_update
| AddComponent ref string val
| RemoveComponent ref string
| Id ref
| Entity nat
| ArchetypeOf path query
| Mutate ref obj

fun step :: "world \<Rightarrow> op \<Rightarrow> world" where
  "step w (Add e) = add w e"
| "step w (Remove e) = remove w e"
| "step w (Update e u) = update w e (plain e u)"
| "step w (AddComponent e c v) = addComponent w e c v"
| "step w (RemoveComponent e c) = removeComponent w e c"
| "step w (Id e) = fst (id_w w e)"
| "step w (Entity n) = w"
| "step w (ArchetypeOf p spec) = archetypeOf w p spec"
| "step w (Mutate e ob) = put_entity w e ob"

definition run :: "world \<Rightarrow> op list \<Rightarrow> world" where
  "run w ops = foldl step w ops"

section \<open>Invariants\<close>

text \<open>The members of a derived index are members of its parent, at every level below a
  bucket whose members are \<open>P\<close>.\<close>

fun sub_ok :: "ref set \<Rightarrow> archetype \<Rightarrow> bool" where
  "sub_ok P (Archetype q es chs) = (set es \<subseteq> P \<and> (\<forall>ch \<in> set chs. sub_ok (set es) ch))"

definition subset_inv :: "world \<Rightarrow> bool" where
  "subset_inv w = (\<forall>a \<in> set (archetypes w). sub_ok (set (entities w)) a)"

text \<open>The identity table: the two maps are inverse to each other, and every id in them
  is below the counter.\<close>

definition id_inv :: "world \<Rightarrow> bool" where
  "id_inv w =
     ((\<forall>e n. (entityToId w e = Some n) = (idToEntity w n = Some e)) \<and>
      (\<forall>e n. entityToId w e = Some n \<longrightarrow> n < nextId w))"

text \<open>Only tracked entities have an id.\<close>

definition ids_tracked :: "world \<Rightarrow> bool" where
  "ids_tracked w = (\<forall>e n. entityToId w e = Some n \<longrightarrow> has w e)"

text \<open>The entity is tracked before, between and after the operations of a sequence.\<close>

fun stays_tracked :: "world \<Rightarrow> ref \<Rightarrow> op list \<Rightarrow> bool" where
  "stays_tracked w e [] = has w e"
| "stays_tracked w e (x # xs) = (has w e \<and> stays_tracked (step w x) e xs)"

text \<open>Every derived index of the World, at any depth.\<close>

fun all_archetypes :: "archetype \<Rightarrow> archetype list" where
  "all_archetypes (Archetype q es chs) =
     Archetype q es chs # concat (map all_archetypes chs)"

definition world_archetypes :: "world \<Rightarrow> archetype list" where
  "world_archetypes w = concat (map all_archetypes (archetypes w))"

section \<open>A small World\<close>

text \<open>John has a name and an age; Jane has a name, and her age was set to \<open>undefined\<close>
  explicitly. Entities 0 and 1 are added to a World with the nested indices
  \<open>with(name).with(age)\<close>; entity 2 is never added.\<close>

definition john :: obj where
  "john = [''name'' \<mapsto> Str ''John'', ''age'' \<mapsto> Num 30]"

definition jane :: obj where
  "jane = [''name'' \<mapsto> Str ''Jane'', ''age'' \<mapsto> Undefined]"

definition ex_heap :: "ref \<Rightarrow> obj" where
  "ex_heap = (\<lambda>_. Map.empty)(0 := john, 1 := jane, 2 := john)"

definition with_age :: query where
  "with_age = \<lparr> q_with = [''age''], q_without = [], q_where = None \<rparr>"

definition with_name :: query where
  "with_name = \<lparr> q_with = [''name''], q_without = [], q_where = None \<rparr>"

definition ex_world :: world where
  "ex_world = run (new_World ex_heap [])
     [ArchetypeOf [] with_name, ArchetypeOf [0] with_age, Add 0, Add 1, Id 0]"

text \<open>A function for \<open>update\<close> that adds entity 2 to the World and returns the partial
  record \<open>{age: undefined}\<close>:
  \<^verbatim>\<open>world.update(e, (e) => { world.add(e); return { age: undefined } })\<close>.\<close>

definition add_and_clear_age :: "world \<Rightarrow> world \<times> obj option" where
  "add_and_clear_age w = (add w 2, Some [''age'' \<mapsto> Undefined])"

definition rename_jane :: "obj \<Rightarrow> obj \<times> obj option" where
  "rename_jane ob = (ob(''name'' \<mapsto> Str ''Jane''), Some [''height'' \<mapsto> Num 180])"

section \<open>Facts about the traversal of children\<close>

lemma each_child_fst:
  "fst (each_child f i (x # xs)) = fst (f i x) # fst (each_child f (Suc i) xs)"
  by (simp split: prod.splits)

lemma each_child_snd:
  "snd (each_child f i (x # xs)) = snd (f i x) @ snd (each_child f (Suc i) xs)"
  by (simp split: prod.splits)

lemma each_child_all:
  "(\<And>k x. x \<in> set xs \<Longrightarrow> P (fst (f k x))) \<Longrightarrow> \<forall>y \<in> set (fst (each_child f i xs)). P y"
proof (induction xs arbitrary: i)
  case Nil
  then show ?case by simp
next
  case (Cons x xs)
  have a: "P (fst (f i x))" by (rule Cons.prems) simp
  have b: "\<forall>y \<in> set (fst (each_child f (Suc i) xs)). P y"
    by (rule Cons.IH) (simp add: Cons.prems)
  from a b show ?case by (simp only: each_child_fst) simp
qed

lemma each_child_events:
  "(\<And>k x. x \<in> set xs \<Longrightarrow> \<forall>ev \<in> set (snd (f k x)). Q ev) \<Longrightarrow>
   \<forall>ev \<in> set (snd (each_child f i xs)). Q ev"
proof (induction xs arbitrary: i)
  case Nil
  then show ?case by simp
next
  case (Cons x xs)
  have a: "\<forall>ev \<in> set (snd (f i x)). Q ev" by (rule Cons.prems) simp
  have b: "\<forall>ev \<in> set (snd (each_child f (Suc i) xs)). Q ev"
    by (rule Cons.IH, rule Cons.prems, simp)
  from a b show ?case by (simp only: each_child_snd) auto
qed

lemma remove_a_fst:
  "fst (remove_a h p e (Archetype q es chs)) =
     (if e \<notin> set es then Archetype q es chs
      else Archetype q (removeAll e es) (fst (each_child (\<lambda>i. remove_a h (p @ [i]) e) 0 chs)))"
  by (simp split: prod.splits)

lemma remove_a_snd:
  "snd (remove_a h p e (Archetype q es chs)) =
     (if e \<notin> set es then []
      else EntityRemoved p e (h e) # snd (each_child (\<lambda>i. remove_a h (p @ [i]) e) 0 chs))"
  by (simp split: prod.splits)

lemma add_a_fst:
  "fst (add_a h p e s (Archetype q es chs)) =
     (if matches q s \<and> e \<notin> set es
      then Archetype q (es @ [e]) (fst (each_child (\<lambda>i. add_a h (p @ [i]) e s) 0 chs))
      else Archetype q es chs)"
  by (simp split: prod.splits)

lemma add_a_snd:
  "snd (add_a h p e s (Archetype q es chs)) =
     (if matches q s \<and> e \<notin> set es
      then EntityAdded p e (h e) # snd (each_child (\<lambda>i. add_a h (p @ [i]) e s) 0 chs)
      else [])"
  by (simp split: prod.splits)

lemma evaluate_a_fst:
  "fst (evaluate_a h p e s (Archetype q es chs)) =
     (if e \<in> set es \<and> \<not> matches q s
      then Archetype q (removeAll e es) (fst (each_child (\<lambda>i. remove_a h (p @ [i]) e) 0 chs))
      else if e \<notin> set es \<and> matches q s
      then Archetype q (es @ [e]) (fst (each_child (\<lambda>i. add_a h (p @ [i]) e s) 0 chs))
      else if e \<in> set es
      then Archetype q es (fst (each_child (\<lambda>i. evaluate_a h (p @ [i]) e s) 0 chs))
      else Archetype q es chs)"
  by (simp add: Let_def split: prod.splits)

lemma evaluate_a_snd:
  "snd (evaluate_a h p e s (Archetype q es chs)) =
     (if e \<in> set es \<and> \<not> matches q s
      then EntityRemoved p e (h e) # snd (each_child (\<lambda>i. remove_a h (p @ [i]) e) 0 chs)
      else if e \<notin> set es \<and> matches q s
      then EntityAdded p e (h e) # snd (each_child (\<lambda>i. add_a h (p @ [i]) e s) 0 chs)
      else if e \<in> set es
      then snd (each_child (\<lambda>i. evaluate_a h (p @ [i]) e s) 0 chs)
      else [])"
  by (simp add: Let_def split: prod.splits)

subsection \<open>The subset invariant\<close>

lemma sub_ok_mono: "sub_ok P a \<Longrightarrow> P \<subseteq> P' \<Longrightarrow> sub_ok P' a"
  by (cases a) auto

lemma remove_a_sub: "sub_ok P a \<Longrightarrow> sub_ok (P - {e}) (fst (remove_a h p e a))"
proof (induction a arbitrary: P p)
  case (Archetype q es chs)
  show ?case
  proof (cases "e \<in> set es")
    case False
    with Archetype.prems show ?thesis by (simp only: remove_a_fst) auto
  next
    case True
    have "\<forall>y \<in> set (fst (each_child (\<lambda>i. remove_a h (p @ [i]) e) 0 chs)). sub_ok (set es - {e}) y"
    proof (rule each_child_all)
      fix k x assume x: "x \<in> set chs"
      with Archetype.prems have "sub_ok (set es) x" by simp
      with x show "sub_ok (set es - {e}) (fst (remove_a h (p @ [k]) e x))"
        by (rule Archetype.IH)
    qed
    with True Archetype.prems show ?thesis
      by (simp only: remove_a_fst) auto
  qed
qed

lemma add_a_sub: "sub_ok P a \<Longrightarrow> e \<in> P \<Longrightarrow> sub_ok P (fst (add_a h p e s a))"
proof (induction a arbitrary: P p)
  case (Archetype q es chs)
  show ?case
  proof (cases "matches q s \<and> e \<notin> set es")
    case False
    with Archetype.prems show ?thesis by (simp only: add_a_fst if_False)
  next
    case True
    have "\<forall>y \<in> set (fst (each_child (\<lambda>i. add_a h (p @ [i]) e s) 0 chs)). sub_ok (insert e (set es)) y"
    proof (rule each_child_all)
      fix k x assume x: "x \<in> set chs"
      with Archetype.prems have "sub_ok (set es) x" by simp
      then have "sub_ok (insert e (set es)) x"
        by (rule sub_ok_mono) blast
      with x show "sub_ok (insert e (set es)) (fst (add_a h (p @ [k]) e s x))"
        by (rule Archetype.IH) simp
    qed
    with True Archetype.prems show ?thesis
      by (simp only: add_a_fst if_True) simp
  qed
qed

lemma evaluate_a_sub: "sub_ok P a \<Longrightarrow> e \<in> P \<Longrightarrow> sub_ok P (fst (evaluate_a h p e s a))"
proof (induction a arbitrary: P p)
  case (Archetype q es chs)
  have sub: "set es \<subseteq> P" and chs: "\<And>x. x \<in> set chs \<Longrightarrow> sub_ok (set es) x"
    using Archetype.prems by simp_all
  have rm: "\<forall>y \<in> set (fst (each_child (\<lambda>i. remove_a h (p @ [i]) e) 0 chs)). sub_ok (set es - {e}) y"
    by (rule each_child_all) (simp add: chs remove_a_sub)
  have ad: "\<forall>y \<in> set (fst (each_child (\<lambda>i. add_a h (p @ [i]) e s) 0 chs)). sub_ok (insert e (set es)) y"
  proof (rule each_child_all)
    fix k x assume x: "x \<in> set chs"
    then have "sub_ok (set es) x" by (rule chs)
    then have "sub_ok (insert e (set es)) x"
      by (rule sub_ok_mono) blast
    then show "sub_ok (insert e (set es)) (fst (add_a h (p @ [k]) e s x))"
      by (rule add_a_sub) simp
  qed
  have ev: "\<forall>y \<in> set (fst (each_child (\<lambda>i. evaluate_a h (p @ [i]) e s) 0 chs)). sub_ok (set es) y"
    if "e \<in> set es"
  proof (rule each_child_all)
    fix k x assume x: "x \<in> set chs"
    then have "sub_ok (set es) x" by (rule chs)
    with x show "sub_ok (set es) (fst (evaluate_a h (p @ [k]) e s x))"
      using that by (rule Archetype.IH)
  qed
  from rm ad ev sub chs Archetype.prems(2) show ?case
    by (simp only: evaluate_a_fst) auto
qed


lemma at_child_all:
  "\<forall>x \<in> set xs. P x \<Longrightarrow> (\<And>x. x \<in> set xs \<Longrightarrow> P x \<Longrightarrow> P (f x)) \<Longrightarrow>
   \<forall>y \<in> set (at_child f i xs). P y"
  by (induction f i xs rule: at_child.induct) simp_all

lemma archetypeOf_a_sub: "sub_ok P a \<Longrightarrow> sub_ok P (archetypeOf_a h p spec a)"
proof (induction p arbitrary: P a)
  case Nil
  then show ?case by (cases a) auto
next
  case (Cons i p)
  obtain q es chs where a: "a = Archetype q es chs" by (cases a)
  with Cons.prems have "\<forall>x \<in> set chs. sub_ok (set es) x" by simp
  then have "\<forall>y \<in> set (at_child (archetypeOf_a h p spec) i chs). sub_ok (set es) y"
    by (rule at_child_all) (rule Cons.IH)
  with Cons.prems a show ?case by simp
qed

lemma evaluate_heap: "heap (evaluate w e f) = heap w"
  by (simp add: evaluate_def Let_def split: prod.splits)

lemma evaluate_entities:
  "entities (evaluate w e f) = (if has w e then entities w else entities w @ [e])"
  by (simp add: evaluate_def Let_def split: prod.splits)

lemma evaluate_archetypes:
  "archetypes (evaluate w e f) =
     (let subject = (case f of None \<Rightarrow> heap w e | Some ob \<Rightarrow> ob) in
      if has w e then fst (each_child (\<lambda>i. evaluate_a (heap w) [i] e subject) 0 (archetypes w))
      else fst (each_child (\<lambda>i. add_a (heap w) [i] e subject) 0 (archetypes w)))"
  by (simp add: evaluate_def Let_def split: prod.splits)

lemma evaluate_events:
  "events (evaluate w e f) =
     (let subject = (case f of None \<Rightarrow> heap w e | Some ob \<Rightarrow> ob) in
      if has w e
      then events w @ snd (each_child (\<lambda>i. evaluate_a (heap w) [i] e subject) 0 (archetypes w))
      else events w @ EntityAdded [] e (heap w e) #
             snd (each_child (\<lambda>i. add_a (heap w) [i] e subject) 0 (archetypes w)))"
  by (simp add: evaluate_def Let_def split: prod.splits)

lemma evaluate_ids:
  "entityToId (evaluate w e f) = entityToId w"
  "idToEntity (evaluate w e f) = idToEntity w"
  "nextId (evaluate w e f) = nextId w"
  by (simp_all add: evaluate_def Let_def split: prod.splits)

lemma add_entities: "entities (add w e) = (if has w e then entities w else entities w @ [e])"
  by (simp add: add_def split: prod.splits)

lemma add_archetypes:
  "archetypes (add w e) =
     (if has w e then archetypes w
      else fst (each_child (\<lambda>i. add_a (heap w) [i] e (heap w e)) 0 (archetypes w)))"
  by (simp add: add_def split: prod.splits)

lemma add_ids:
  "entityToId (add w e) = entityToId w"
  "idToEntity (add w e) = idToEntity w"
  "nextId (add w e) = nextId w"
  "heap (add w e) = heap w"
  by (simp_all add: add_def split: prod.splits)

lemma forget_id_fields:
  "entities (forget_id w e) = entities w"
  "archetypes (forget_id w e) = archetypes w"
  "heap (forget_id w e) = heap w"
  "events (forget_id w e) = events w"
  "nextId (forget_id w e) = nextId w"
  by (simp_all add: forget_id_def split: option.splits)

lemma remove_entities: "entities (remove w e) = removeAll e (entities w)"
  by (simp add: remove_def remove_fired_def has_def Let_def forget_id_fields split: prod.splits)

lemma remove_archetypes:
  "archetypes (remove w e) =
     (if has w e then fst (each_child (\<lambda>i. remove_a (heap w) [i] e) 0 (archetypes w))
      else archetypes w)"
  by (simp add: remove_def remove_fired_def Let_def forget_id_fields split: prod.splits)

lemma remove_ids:
  "entityToId (remove w e) = (if has w e then entityToId (forget_id w e) else entityToId w)"
  "idToEntity (remove w e) = (if has w e then idToEntity (forget_id w e) else idToEntity w)"
  "nextId (remove w e) = nextId w"
  "heap (remove w e) = heap w"
  by (simp_all add: remove_def remove_fired_def Let_def forget_id_def split: prod.splits option.splits)

lemma subset_inv_evaluate: "subset_inv w \<Longrightarrow> subset_inv (evaluate w e f)"
proof -
  assume inv: "subset_inv w"
  let ?s = "case f of None \<Rightarrow> heap w e | Some ob \<Rightarrow> ob"
  show ?thesis
  proof (cases "has w e")
    case True
    have "\<forall>y \<in> set (fst (each_child (\<lambda>i. evaluate_a (heap w) [i] e ?s) 0 (archetypes w))).
            sub_ok (set (entities w)) y"
      by (rule each_child_all, rule evaluate_a_sub)
         (use inv True in \<open>simp_all add: subset_inv_def has_def\<close>)
    with True show ?thesis
      by (simp add: subset_inv_def evaluate_entities evaluate_archetypes)
  next
    case False
    have "\<forall>y \<in> set (fst (each_child (\<lambda>i. add_a (heap w) [i] e ?s) 0 (archetypes w))).
            sub_ok (insert e (set (entities w))) y"
    proof (rule each_child_all)
      fix k x assume "x \<in> set (archetypes w)"
      with inv have "sub_ok (set (entities w)) x" by (simp add: subset_inv_def)
      then have "sub_ok (insert e (set (entities w))) x" by (rule sub_ok_mono) blast
      then show "sub_ok (insert e (set (entities w))) (fst (add_a (heap w) [k] e ?s x))"
        by (rule add_a_sub) simp
    qed
    with False show ?thesis
      by (simp add: subset_inv_def evaluate_entities evaluate_archetypes)
  qed
qed

lemma subset_inv_add: "subset_inv w \<Longrightarrow> subset_inv (add w e)"
proof -
  assume inv: "subset_inv w"
  show ?thesis
  proof (cases "has w e")
    case True
    with inv show ?thesis by (simp add: add_def)
  next
    case False
    have "\<forall>y \<in> set (fst (each_child (\<lambda>i. add_a (heap w) [i] e (heap w e)) 0 (archetypes w))).
            sub_ok (insert e (set (entities w))) y"
    proof (rule each_child_all)
      fix k x assume "x \<in> set (archetypes w)"
      with inv have "sub_ok (set (entities w)) x" by (simp add: subset_inv_def)
      then have "sub_ok (insert e (set (entities w))) x" by (rule sub_ok_mono) blast
      then show "sub_ok (insert e (set (entities w))) (fst (add_a (heap w) [k] e (heap w e) x))"
        by (rule add_a_sub) simp
    qed
    with False show ?thesis
      by (simp add: subset_inv_def add_entities add_archetypes)
  qed
qed

lemma subset_inv_remove: "subset_inv w \<Longrightarrow> subset_inv (remove w e)"
proof -
  assume inv: "subset_inv w"
  show ?thesis
  proof (cases "has w e")
    case False
    with inv show ?thesis by (simp add: remove_def)
  next
    case True
    have "\<forall>y \<in> set (fst (each_child (\<lambda>i. remove_a (heap w) [i] e) 0 (archetypes w))).
            sub_ok (set (entities w) - {e}) y"
      by (rule each_child_all, rule remove_a_sub) (use inv in \<open>simp add: subset_inv_def\<close>)
    with True show ?thesis
      by (simp add: subset_inv_def remove_entities remove_archetypes)
  qed
qed

lemma subset_inv_put_entity: "subset_inv (put_entity w e ob) = subset_inv w"
  by (simp add: subset_inv_def put_entity_def)

text \<open>An update of a sequence only replaces the entity object before \<open>has\<close> is asked.\<close>

lemma apply_plain: "\<exists>ob. apply_update w e (plain e u) = put_entity w e ob"
proof (cases u)
  case PlainNone
  have "w = put_entity w e (heap w e)" by (simp add: put_entity_def)
  with PlainNone show ?thesis by (auto simp: apply_update_def)
next
  case (PlainFun f)
  obtain ob partial where f: "f (heap w e) = (ob, partial)" by (cases "f (heap w e)")
  have "put_entity (put_entity w e ob) e ob' = put_entity w e ob'" for ob'
    by (simp add: put_entity_def)
  with PlainFun f show ?thesis
    by (cases partial) (auto simp: apply_update_def on_entity_def)
next
  case (PlainComponent c v)
  then show ?thesis by (auto simp: apply_update_def)
next
  case (PlainPartial p)
  then show ?thesis by (auto simp: apply_update_def)
qed

lemma subset_inv_archetypeOf: "subset_inv w \<Longrightarrow> subset_inv (archetypeOf w p spec)"
proof (cases p)
  case Nil
  assume "subset_inv w"
  with Nil show ?thesis by (auto simp: subset_inv_def archetypeOf_def)
next
  case (Cons i p')
  assume "subset_inv w"
  then have "\<forall>x \<in> set (archetypes w). sub_ok (set (entities w)) x"
    by (simp add: subset_inv_def)
  then have "\<forall>y \<in> set (at_child (archetypeOf_a (heap w) p' spec) i (archetypes w)).
               sub_ok (set (entities w)) y"
    by (rule at_child_all) (rule archetypeOf_a_sub)
  with Cons show ?thesis by (simp add: subset_inv_def archetypeOf_def)
qed

lemma subset_inv_step: "subset_inv w \<Longrightarrow> subset_inv (step w op)"
proof (cases op)
  case (Id e)
  assume "subset_inv w"
  with Id show ?thesis by (simp add: id_w_def subset_inv_def Let_def)
next
  case (Update e u)
  assume inv: "subset_inv w"
  obtain ob where "apply_update w e (plain e u) = put_entity w e ob"
    using apply_plain by blast
  with inv Update show ?thesis
    by (simp add: update_def Let_def subset_inv_evaluate subset_inv_put_entity)
qed (simp_all add: subset_inv_add subset_inv_remove subset_inv_archetypeOf
      addComponent_def removeComponent_def Let_def subset_inv_evaluate subset_inv_put_entity)

lemma subset_inv_run: "subset_inv w \<Longrightarrow> subset_inv (run w ops)"
  unfolding run_def by (induction ops arbitrary: w) (simp_all add: subset_inv_step)

lemma subset_inv_new: "subset_inv (new_World h es)"
  by (simp add: subset_inv_def new_World_def)


subsection \<open>What the operations leave unchanged\<close>

lemma has_put_entity: "has (put_entity w e ob) e' = has w e'"
  by (simp add: has_def put_entity_def)

lemma put_entity_fields:
  "entities (put_entity w e ob) = entities w"
  "archetypes (put_entity w e ob) = archetypes w"
  "entityToId (put_entity w e ob) = entityToId w"
  "idToEntity (put_entity w e ob) = idToEntity w"
  "nextId (put_entity w e ob) = nextId w"
  "events (put_entity w e ob) = events w"
  "heap (put_entity w e ob) = (heap w)(e := ob)"
  by (simp_all add: put_entity_def)

lemma update_fields:
  "entities (update w e (plain e u)) = entities w"
  "entityToId (update w e (plain e u)) = entityToId w"
  "idToEntity (update w e (plain e u)) = idToEntity w"
  "nextId (update w e (plain e u)) = nextId w"
proof -
  obtain ob where "apply_update w e (plain e u) = put_entity w e ob"
    using apply_plain by blast
  then show
    "entities (update w e (plain e u)) = entities w"
    "entityToId (update w e (plain e u)) = entityToId w"
    "idToEntity (update w e (plain e u)) = idToEntity w"
    "nextId (update w e (plain e u)) = nextId w"
    by (simp_all add: update_def Let_def evaluate_entities evaluate_ids put_entity_fields
          has_put_entity)
qed

lemma addComponent_fields:
  "entities (addComponent w e c v) = entities w"
  "entityToId (addComponent w e c v) = entityToId w"
  "idToEntity (addComponent w e c v) = idToEntity w"
  "nextId (addComponent w e c v) = nextId w"
  by (simp_all add: addComponent_def Let_def evaluate_entities evaluate_ids put_entity_fields
        has_put_entity)

lemma removeComponent_fields:
  "entities (removeComponent w e c) = entities w"
  "entityToId (removeComponent w e c) = entityToId w"
  "idToEntity (removeComponent w e c) = idToEntity w"
  "nextId (removeComponent w e c) = nextId w"
  by (simp_all add: removeComponent_def Let_def evaluate_entities evaluate_ids put_entity_fields)

lemma archetypeOf_fields:
  "entities (archetypeOf w p spec) = entities w"
  "entityToId (archetypeOf w p spec) = entityToId w"
  "idToEntity (archetypeOf w p spec) = idToEntity w"
  "nextId (archetypeOf w p spec) = nextId w"
  by (simp_all add: archetypeOf_def split: list.splits)

lemma id_w_fields:
  "entities (fst (id_w w e)) = entities w"
  "archetypes (fst (id_w w e)) = archetypes w"
  "heap (fst (id_w w e)) = heap w"
  "events (fst (id_w w e)) = events w"
  by (simp_all add: id_w_def Let_def)

lemmas op_fields = update_fields addComponent_fields removeComponent_fields archetypeOf_fields
  add_entities add_ids remove_entities remove_ids id_w_fields put_entity_fields

subsection \<open>The identity table\<close>

lemma id_inv_forget: "id_inv w \<Longrightarrow> id_inv (forget_id w e)"
proof (cases "entityToId w e")
  case None
  assume "id_inv w"
  with None show ?thesis by (simp add: forget_id_def)
next
  case (Some m)
  assume inv: "id_inv w"
  from inv have iff: "\<And>e n. (entityToId w e = Some n) = (idToEntity w n = Some e)"
    and lt: "\<And>e n. entityToId w e = Some n \<Longrightarrow> n < nextId w"
    by (simp_all add: id_inv_def)
  from Some iff have m: "idToEntity w m = Some e" by simp
  have a: "((entityToId w)(e := None)) e' = Some n \<longleftrightarrow> ((idToEntity w)(m := None)) n = Some e'"
    for e' n
  proof (cases "e' = e")
    case True
    then show ?thesis using iff[of e n] Some by auto
  next
    case False
    then show ?thesis using iff[of e' n] iff[of e' m] m by auto
  qed
  have b: "((entityToId w)(e := None)) e' = Some n \<Longrightarrow> n < nextId w" for e' n
    using lt[of e' n] by (simp split: if_splits)
  from a b Some show ?thesis
    by (simp add: forget_id_def id_inv_def)
qed

lemma id_inv_id_w: "id_inv w \<Longrightarrow> id_inv (fst (id_w w e))"
proof -
  assume inv: "id_inv w"
  from inv have iff: "\<And>e n. (entityToId w e = Some n) = (idToEntity w n = Some e)"
    and lt: "\<And>e n. entityToId w e = Some n \<Longrightarrow> n < nextId w"
    by (simp_all add: id_inv_def)
  show ?thesis
  proof (cases "has w e \<and> entityToId w e = None")
    case False
    with inv show ?thesis by (auto simp: id_w_def Let_def)
  next
    case True
    have fresh: "idToEntity w (nextId w) = None"
    proof (cases "idToEntity w (nextId w)")
      case (Some e')
      with iff[of e' "nextId w"] lt[of e' "nextId w"] show ?thesis by simp
    qed simp
    have a: "((entityToId w)(e \<mapsto> nextId w)) e' = Some n \<longleftrightarrow>
             ((idToEntity w)(nextId w \<mapsto> e)) n = Some e'" for e' n
    proof (cases "e' = e")
      case True
      then show ?thesis using iff[of e n] True \<open>has w e \<and> entityToId w e = None\<close> by auto
    next
      case False
      then show ?thesis using iff[of e' n] fresh by auto
    qed
    have b: "((entityToId w)(e \<mapsto> nextId w)) e' = Some n \<Longrightarrow> n < Suc (nextId w)" for e' n
      using lt[of e' n] by (auto split: if_splits)
    from a b True show ?thesis
      by (simp add: id_w_def Let_def id_inv_def)
  qed
qed


lemma id_inv_remove: "id_inv w \<Longrightarrow> id_inv (remove w e)"
proof -
  assume inv: "id_inv w"
  then have "id_inv (forget_id w e)" by (rule id_inv_forget)
  then have "id_inv (remove w e)" if "has w e"
    using that by (simp add: id_inv_def remove_ids forget_id_fields)
  moreover have "id_inv (remove w e)" if "\<not> has w e"
    using that inv by (simp add: remove_def)
  ultimately show ?thesis by blast
qed

lemma id_inv_step: "id_inv w \<Longrightarrow> id_inv (step w op)"
proof (cases op)
  case (Id e)
  assume "id_inv w"
  with Id show ?thesis by (simp add: id_inv_id_w)
next
  case (Remove e)
  assume "id_inv w"
  with Remove show ?thesis by (simp add: id_inv_remove)
qed (simp_all add: id_inv_def op_fields)

lemma id_inv_run: "id_inv w \<Longrightarrow> id_inv (run w ops)"
  unfolding run_def by (induction ops arbitrary: w) (simp_all add: id_inv_step)

lemma id_inv_new: "id_inv (new_World h es)"
  by (simp add: id_inv_def new_World_def)

lemma ids_tracked_step: "ids_tracked w \<Longrightarrow> ids_tracked (step w op)"
proof (cases op)
  case (Id e)
  assume "ids_tracked w"
  with Id show ?thesis
    by (auto simp: ids_tracked_def has_def id_w_def Let_def split: if_splits)
next
  case (Remove e)
  assume "ids_tracked w"
  with Remove show ?thesis
    by (auto simp: ids_tracked_def has_def remove_entities remove_ids forget_id_def
          split: if_splits option.splits)
next
  case (Add e)
  assume "ids_tracked w"
  with Add show ?thesis
    by (auto simp: ids_tracked_def has_def add_entities add_ids)
qed (simp_all add: ids_tracked_def has_def op_fields)

lemma ids_tracked_run: "ids_tracked w \<Longrightarrow> ids_tracked (run w ops)"
  unfolding run_def by (induction ops arbitrary: w) (simp_all add: ids_tracked_step)

lemma ids_tracked_new: "ids_tracked (new_World h es)"
  by (simp add: ids_tracked_def new_World_def)

text \<open>An id that is assigned stays, as long as the entity is tracked after the step.\<close>

lemma id_kept_step:
  "entityToId w e = Some n \<Longrightarrow> has (step w op) e \<Longrightarrow> entityToId (step w op) e = Some n"
proof (cases op)
  case (Id e')
  assume "entityToId w e = Some n" "has (step w op) e"
  with Id show ?thesis by (auto simp: id_w_def Let_def)
next
  case (Remove e')
  assume "entityToId w e = Some n" "has (step w op) e"
  with Remove show ?thesis
    by (auto simp: has_def remove_entities remove_ids forget_id_def split: option.splits)
qed (simp_all add: op_fields)

lemma id_kept_run:
  "entityToId w e = Some n \<Longrightarrow> stays_tracked w e ops \<Longrightarrow> entityToId (run w ops) e = Some n"
proof (induction ops arbitrary: w)
  case Nil
  then show ?case by (simp add: run_def)
next
  case (Cons x xs)
  from Cons.prems have tr: "stays_tracked (step w x) e xs" by simp
  then have "has (step w x) e" by (cases xs) simp_all
  with Cons.prems have "entityToId (step w x) e = Some n" by (simp add: id_kept_step)
  from Cons.IH[OF this tr] show ?case by (simp add: run_def)
qed

text \<open>An id below the counter that names nobody is never handed out again.\<close>

lemma dead_id_step:
  "n < nextId w \<Longrightarrow> idToEntity w n = None \<Longrightarrow>
   n < nextId (step w op) \<and> idToEntity (step w op) n = None"
proof (cases op)
  case (Id e')
  assume "n < nextId w" "idToEntity w n = None"
  with Id show ?thesis by (auto simp: id_w_def Let_def)
next
  case (Remove e')
  assume "n < nextId w" "idToEntity w n = None"
  with Remove show ?thesis
    by (auto simp: remove_ids forget_id_def split: option.splits)
qed (simp_all add: op_fields)

lemma dead_id_run:
  "n < nextId w \<Longrightarrow> idToEntity w n = None \<Longrightarrow>
   n < nextId (run w ops) \<and> idToEntity (run w ops) n = None"
proof (induction ops arbitrary: w)
  case Nil
  then show ?case by (simp add: run_def)
next
  case (Cons x xs)
  from dead_id_step[OF Cons.prems, of x]
  have "n < nextId (run (step w x) xs) \<and> idToEntity (run (step w x) xs) n = None"
    by (intro Cons.IH) simp_all
  then show ?case by (simp add: run_def)
qed

text \<open>An id below the counter names the entity it was given to, or nobody.\<close>

lemma own_id_step:
  "n < nextId w \<Longrightarrow> idToEntity w n = None \<or> idToEntity w n = Some e \<Longrightarrow>
   n < nextId (step w op) \<and>
   (idToEntity (step w op) n = None \<or> idToEntity (step w op) n = Some e)"
proof (cases op)
  case (Id e')
  assume "n < nextId w" "idToEntity w n = None \<or> idToEntity w n = Some e"
  with Id show ?thesis by (auto simp: id_w_def Let_def)
next
  case (Remove e')
  assume "n < nextId w" "idToEntity w n = None \<or> idToEntity w n = Some e"
  with Remove show ?thesis
    by (auto simp: remove_ids forget_id_def split: option.splits)
qed (simp_all add: op_fields)

lemma own_id_run:
  "n < nextId w \<Longrightarrow> idToEntity w n = None \<or> idToEntity w n = Some e \<Longrightarrow>
   n < nextId (run w ops) \<and>
   (idToEntity (run w ops) n = None \<or> idToEntity (run w ops) n = Some e)"
proof (induction ops arbitrary: w)
  case Nil
  then show ?case by (simp add: run_def)
next
  case (Cons x xs)
  from own_id_step[OF Cons.prems, of x]
  have "n < nextId (run (step w x) xs) \<and>
    (idToEntity (run (step w x) xs) n = None \<or> idToEntity (run (step w x) xs) n = Some e)"
    by (intro Cons.IH) simp_all
  then show ?case by (simp add: run_def)
qed

lemma stays_tracked_run: "stays_tracked w e ops \<Longrightarrow> has (run w ops) e"
  unfolding run_def by (induction ops arbitrary: w) simp_all

lemma id_w_Some:
  "id_w w e = (w1, Some n) \<Longrightarrow> entityToId w1 e = Some n \<and> has w1 e \<and> w1 = fst (id_w w e)"
  by (auto simp: id_w_def Let_def has_def split: if_splits)

lemma id_w_known: "has w e \<Longrightarrow> entityToId w e = Some n \<Longrightarrow> id_w w e = (w, Some n)"
  by (simp add: id_w_def)

lemma id_w_other:
  "e' \<noteq> e \<Longrightarrow> entityToId w e = Some n \<Longrightarrow> entityToId (fst (id_w w e')) e = Some n"
  by (simp add: id_w_def Let_def)

lemma id_inv_inj:
  "id_inv w \<Longrightarrow> entityToId w e = Some n \<Longrightarrow> entityToId w e' = Some n \<Longrightarrow> e' = e"
  unfolding id_inv_def by (metis option.inject)

lemma remove_kills_id:
  assumes "id_inv w" "ids_tracked w" "idToEntity w n = None \<or> idToEntity w n = Some e"
  shows "idToEntity (remove w e) n = None"
proof (cases "idToEntity w n")
  case None
  then show ?thesis by (simp add: remove_ids forget_id_def split: option.splits)
next
  case (Some e')
  with assms(3) have n: "idToEntity w n = Some e" by simp
  with assms(1) have "entityToId w e = Some n" by (simp add: id_inv_def)
  moreover from this assms(2) have "has w e" unfolding ids_tracked_def by blast
  ultimately show ?thesis by (simp add: remove_ids forget_id_def)
qed

lemma id_w_not_dead:
  assumes "id_inv w" "n < nextId w" "idToEntity w n = None"
  shows "snd (id_w w e) \<noteq> Some n"
proof -
  from assms(1,3) have "entityToId w e \<noteq> Some n" by (simp add: id_inv_def)
  with assms(2) show ?thesis by (auto simp: id_w_def Let_def)
qed

lemma id_w_tracked: "has w e \<Longrightarrow> \<exists>m. snd (id_w w e) = Some m"
  by (auto simp: id_w_def Let_def)

subsection \<open>Events\<close>

text \<open>Every event of a traversal for an entity carries that entity and its fields
  in the store the traversal was given.\<close>

lemma remove_a_events:
  "\<forall>ev \<in> set (snd (remove_a h p e a)). ev_entity ev = e \<and> ev_fields ev = h e"
proof (induction a arbitrary: p)
  case (Archetype q es chs)
  have "\<forall>ev \<in> set (snd (each_child (\<lambda>i. remove_a h (p @ [i]) e) 0 chs)).
          ev_entity ev = e \<and> ev_fields ev = h e"
    by (rule each_child_events) (rule Archetype.IH)
  then show ?case by (simp only: remove_a_snd) auto
qed

lemma add_a_events:
  "\<forall>ev \<in> set (snd (add_a h p e s a)). ev_entity ev = e \<and> ev_fields ev = h e"
proof (induction a arbitrary: p)
  case (Archetype q es chs)
  have "\<forall>ev \<in> set (snd (each_child (\<lambda>i. add_a h (p @ [i]) e s) 0 chs)).
          ev_entity ev = e \<and> ev_fields ev = h e"
    by (rule each_child_events) (rule Archetype.IH)
  then show ?case by (simp only: add_a_snd) auto
qed

lemma evaluate_a_events:
  "\<forall>ev \<in> set (snd (evaluate_a h p e s a)). ev_entity ev = e \<and> ev_fields ev = h e"
proof (induction a arbitrary: p)
  case (Archetype q es chs)
  have rm: "\<forall>ev \<in> set (snd (each_child (\<lambda>i. remove_a h (p @ [i]) e) 0 chs)).
          ev_entity ev = e \<and> ev_fields ev = h e"
    by (rule each_child_events) (rule remove_a_events)
  have ad: "\<forall>ev \<in> set (snd (each_child (\<lambda>i. add_a h (p @ [i]) e s) 0 chs)).
          ev_entity ev = e \<and> ev_fields ev = h e"
    by (rule each_child_events) (rule add_a_events)
  have ev: "\<forall>ev \<in> set (snd (each_child (\<lambda>i. evaluate_a h (p @ [i]) e s) 0 chs)).
          ev_entity ev = e \<and> ev_fields ev = h e"
    by (rule each_child_events) (rule Archetype.IH)
  from rm ad ev show ?case by (simp only: evaluate_a_snd) auto
qed

lemma evaluate_new_events:
  "events (evaluate w e f) = events w @ drop (length (events w)) (events (evaluate w e f)) \<and>
   (\<forall>ev \<in> set (drop (length (events w)) (events (evaluate w e f))).
      ev_entity ev = e \<and> ev_fields ev = heap w e)"
proof -
  let ?s = "case f of None \<Rightarrow> heap w e | Some ob \<Rightarrow> ob"
  have ev: "\<forall>ev \<in> set (snd (each_child (\<lambda>i. evaluate_a (heap w) [i] e ?s) 0 (archetypes w))).
          ev_entity ev = e \<and> ev_fields ev = heap w e"
    by (rule each_child_events) (rule evaluate_a_events)
  have ad: "\<forall>ev \<in> set (snd (each_child (\<lambda>i. add_a (heap w) [i] e ?s) 0 (archetypes w))).
          ev_entity ev = e \<and> ev_fields ev = heap w e"
    by (rule each_child_events) (rule add_a_events)
  from ev ad show ?thesis by (auto simp: evaluate_events Let_def)
qed

subsection \<open>Indices that require an absent component\<close>

lemma matches_with: "matches q s \<Longrightarrow> c \<in> set (q_with q) \<Longrightarrow> present s c"
  by (simp add: matches_def list_all_iff)

lemma all_archetypes_set:
  "set (all_archetypes (Archetype q es chs)) =
     insert (Archetype q es chs) (\<Union>ch \<in> set chs. set (all_archetypes ch))"
  by simp

text \<open>Below a bucket that does not hold the entity, no index holds it.\<close>

lemma sub_ok_absent:
  "sub_ok P a \<Longrightarrow> e \<notin> P \<Longrightarrow> \<forall>b \<in> set (all_archetypes a). e \<notin> set (a_entities b)"
proof (induction a arbitrary: P)
  case (Archetype q es chs)
  from Archetype.prems have e: "e \<notin> set es" by auto
  have "\<forall>b \<in> set (all_archetypes ch). e \<notin> set (a_entities b)" if "ch \<in> set chs" for ch
    using that Archetype.prems e by (intro Archetype.IH[of ch "set es"]) simp_all
  with e show ?case by (simp only: all_archetypes_set) auto
qed

lemma remove_a_gone:
  "sub_ok P a \<Longrightarrow> \<forall>b \<in> set (all_archetypes (fst (remove_a h p e a))). e \<notin> set (a_entities b)"
proof (induction a arbitrary: P p)
  case (Archetype q es chs)
  show ?case
  proof (cases "e \<in> set es")
    case False
    have "sub_ok (set es) (Archetype q es chs)" using Archetype.prems by simp
    from sub_ok_absent[OF this False] False show ?thesis
      by (simp only: remove_a_fst not_False_eq_True if_True)
  next
    case True
    have "\<forall>y \<in> set (fst (each_child (\<lambda>i. remove_a h (p @ [i]) e) 0 chs)).
            \<forall>b \<in> set (all_archetypes y). e \<notin> set (a_entities b)"
    proof (rule each_child_all)
      fix k x assume x: "x \<in> set chs"
      with Archetype.prems have "sub_ok (set es) x" by simp
      with x show "\<forall>b \<in> set (all_archetypes (fst (remove_a h (p @ [k]) e x))).
                     e \<notin> set (a_entities b)"
        by (rule Archetype.IH)
    qed
    with True show ?thesis
      by (simp only: remove_a_fst all_archetypes_set) auto
  qed
qed

lemma add_a_requires:
  assumes "\<not> present s c"
  shows "\<forall>b \<in> set (all_archetypes a). e \<notin> set (a_entities b) \<Longrightarrow>
         \<forall>b \<in> set (all_archetypes (fst (add_a h p e s a))).
           c \<in> set (q_with (a_query b)) \<longrightarrow> e \<notin> set (a_entities b)"
proof (induction a arbitrary: p)
  case (Archetype q es chs)
  show ?case
  proof (cases "matches q s \<and> e \<notin> set es")
    case False
    with Archetype.prems show ?thesis
      by (simp only: add_a_fst if_False) blast
  next
    case True
    with assms have c: "c \<notin> set (q_with q)" by (auto dest: matches_with)
    have "\<forall>y \<in> set (fst (each_child (\<lambda>i. add_a h (p @ [i]) e s) 0 chs)).
            \<forall>b \<in> set (all_archetypes y). c \<in> set (q_with (a_query b)) \<longrightarrow> e \<notin> set (a_entities b)"
    proof (rule each_child_all)
      fix k x assume x: "x \<in> set chs"
      with Archetype.prems have "\<forall>b \<in> set (all_archetypes x). e \<notin> set (a_entities b)"
        by (simp only: all_archetypes_set) blast
      with x show "\<forall>b \<in> set (all_archetypes (fst (add_a h (p @ [k]) e s x))).
                     c \<in> set (q_with (a_query b)) \<longrightarrow> e \<notin> set (a_entities b)"
        by (rule Archetype.IH)
    qed
    with True c show ?thesis
      by (simp only: add_a_fst all_archetypes_set) auto
  qed
qed

lemma evaluate_a_requires:
  assumes "\<not> present s c"
  shows "sub_ok P a \<Longrightarrow>
         \<forall>b \<in> set (all_archetypes (fst (evaluate_a h p e s a))).
           c \<in> set (q_with (a_query b)) \<longrightarrow> e \<notin> set (a_entities b)"
proof (induction a arbitrary: P p)
  case (Archetype q es chs)
  have chs: "\<And>x. x \<in> set chs \<Longrightarrow> sub_ok (set es) x"
    using Archetype.prems by simp
  have c: "c \<notin> set (q_with q)" if "matches q s"
    using that assms by (auto dest: matches_with)
  have rm: "\<forall>y \<in> set (fst (each_child (\<lambda>i. remove_a h (p @ [i]) e) 0 chs)).
            \<forall>b \<in> set (all_archetypes y). c \<in> set (q_with (a_query b)) \<longrightarrow> e \<notin> set (a_entities b)"
  proof (rule each_child_all)
    fix k x assume "x \<in> set chs"
    then have "sub_ok (set es) x" by (rule chs)
    from remove_a_gone[OF this]
    show "\<forall>b \<in> set (all_archetypes (fst (remove_a h (p @ [k]) e x))).
            c \<in> set (q_with (a_query b)) \<longrightarrow> e \<notin> set (a_entities b)"
      by blast
  qed
  have ad: "\<forall>y \<in> set (fst (each_child (\<lambda>i. add_a h (p @ [i]) e s) 0 chs)).
            \<forall>b \<in> set (all_archetypes y). c \<in> set (q_with (a_query b)) \<longrightarrow> e \<notin> set (a_entities b)"
    if "e \<notin> set es"
  proof (rule each_child_all)
    fix k x assume "x \<in> set chs"
    then have "sub_ok (set es) x" by (rule chs)
    then have "\<forall>b \<in> set (all_archetypes x). e \<notin> set (a_entities b)"
      using that by (rule sub_ok_absent)
    then show "\<forall>b \<in> set (all_archetypes (fst (add_a h (p @ [k]) e s x))).
            c \<in> set (q_with (a_query b)) \<longrightarrow> e \<notin> set (a_entities b)"
      by (rule add_a_requires[OF assms])
  qed
  have ev: "\<forall>y \<in> set (fst (each_child (\<lambda>i. evaluate_a h (p @ [i]) e s) 0 chs)).
            \<forall>b \<in> set (all_archetypes y). c \<in> set (q_with (a_query b)) \<longrightarrow> e \<notin> set (a_entities b)"
  proof (rule each_child_all)
    fix k x assume x: "x \<in> set chs"
    then have "sub_ok (set es) x" by (rule chs)
    with x show "\<forall>b \<in> set (all_archetypes (fst (evaluate_a h (p @ [k]) e s x))).
            c \<in> set (q_with (a_query b)) \<longrightarrow> e \<notin> set (a_entities b)"
      by (rule Archetype.IH)
  qed
  have un: "\<forall>b \<in> set (all_archetypes (Archetype q es chs)). e \<notin> set (a_entities b)"
    if "e \<notin> set es"
  proof -
    have "sub_ok (set es) (Archetype q es chs)" using chs by simp
    from sub_ok_absent[OF this that] show ?thesis .
  qed
  consider (remove) "e \<in> set es" "\<not> matches q s" | (add) "e \<notin> set es" "matches q s"
    | (keep) "e \<in> set es" "matches q s" | (out) "e \<notin> set es" "\<not> matches q s"
    by blast
  then show ?case
  proof cases
    case remove
    with rm show ?thesis by (simp only: evaluate_a_fst all_archetypes_set) auto
  next
    case add
    with ad c show ?thesis by (simp only: evaluate_a_fst all_archetypes_set) auto
  next
    case keep
    with ev c show ?thesis by (simp only: evaluate_a_fst all_archetypes_set) auto
  next
    case out
    with un show ?thesis by (simp only: evaluate_a_fst) auto
  qed
qed

lemma addComponent_undefined_subset:
  assumes "subset_inv w" and "has w e" and "get_field (heap w e) c = Undefined"
  shows "addComponent w e c Undefined =
           evaluate (put_entity w e (set_field (heap w e) c Undefined)) e None \<and>
         heap (addComponent w e c Undefined) e c = Some Undefined \<and>
         \<not> present (heap (addComponent w e c Undefined) e) c \<and>
         list_all (\<lambda>a. e \<notin> set (a_entities a))
           (filter (\<lambda>a. c \<in> set (q_with (a_query a)))
              (world_archetypes (addComponent w e c Undefined)))"
proof -
  let ?s = "set_field (heap w e) c Undefined"
  let ?w1 = "put_entity w e ?s"
  from assms have eq: "addComponent w e c Undefined = evaluate ?w1 e None"
    by (simp add: addComponent_def has_put_entity)
  have fld: "heap (evaluate ?w1 e None) e c = Some Undefined"
    by (simp add: evaluate_heap put_entity_fields set_field_def)
  then have np: "\<not> present (heap (evaluate ?w1 e None) e) c"
    by (simp add: present_def get_field_def)
  have ns: "\<not> present ?s c" by (simp add: present_def get_field_def set_field_def)
  have "\<forall>y \<in> set (fst (each_child (\<lambda>i. evaluate_a (heap ?w1) [i] e ?s) 0 (archetypes w))).
          \<forall>b \<in> set (all_archetypes y). c \<in> set (q_with (a_query b)) \<longrightarrow> e \<notin> set (a_entities b)"
  proof (rule each_child_all)
    fix k x assume "x \<in> set (archetypes w)"
    with assms(1) have "sub_ok (set (entities w)) x" by (simp add: subset_inv_def)
    then show "\<forall>b \<in> set (all_archetypes (fst (evaluate_a (heap ?w1) [k] e ?s x))).
            c \<in> set (q_with (a_query b)) \<longrightarrow> e \<notin> set (a_entities b)"
      by (rule evaluate_a_requires[OF ns])
  qed
  with assms(2) have "\<forall>a \<in> set (world_archetypes (evaluate ?w1 e None)).
            c \<in> set (q_with (a_query a)) \<longrightarrow> e \<notin> set (a_entities a)"
    by (simp add: world_archetypes_def evaluate_archetypes has_put_entity put_entity_fields)
  then have "list_all (\<lambda>a. e \<notin> set (a_entities a))
           (filter (\<lambda>a. c \<in> set (q_with (a_query a)))
              (world_archetypes (evaluate ?w1 e None)))"
    by (simp add: list_all_iff)
  with eq fld np show ?thesis by simp
qed

subsection \<open>The small World, evaluated\<close>

lemmas ex_defs = ex_world_def run_def new_World_def ex_heap_def john_def jane_def with_age_def
  with_name_def archetypeOf_def add_def has_def id_w_def matches_def both_def present_def
  get_field_def Let_def

lemma ex_entities: "entities ex_world = [0, 1]"
  by (simp add: ex_defs)

lemma ex_archetypes:
  "archetypes ex_world =
     [Archetype with_name [0, 1] [Archetype (both with_name with_age) [0] []]]"
  by (simp add: ex_defs)

lemma ex_heap_world: "heap ex_world = ex_heap"
  by (simp add: ex_defs)

lemma ex_ids:
  "entityToId ex_world = [0 \<mapsto> 0]" "idToEntity ex_world = [0 \<mapsto> 0]" "nextId ex_world = 1"
  by (simp_all add: ex_defs)

section \<open>The claims\<close>

text \<open>
  C5: if the component is present on the entity (reading it does not give the
  missing-sentinel), \<open>addComponent\<close> changes nothing: the entity, the buckets, the events
  and the identity table are as before. If the component is absent, \<open>removeComponent\<close>
  changes nothing. Neither has an error branch.
\<close>

theorem noop_guards:
  "(get_field (heap w e) c \<noteq> Undefined \<longrightarrow> addComponent w e c v = w) \<and>
   (get_field (heap w e) c = Undefined \<longrightarrow> removeComponent w e c = w)"
  by (simp add: addComponent_def removeComponent_def)

theorem noop_guards_witness:
  "get_field (heap ex_world 0) ''age'' \<noteq> Undefined \<and>
   addComponent ex_world 0 ''age'' (Num 1) = ex_world \<and>
   get_field (heap ex_world 0) ''height'' = Undefined \<and>
   removeComponent ex_world 0 ''height'' = ex_world"
  using noop_guards [of ex_world 0 "''age''" "Num 1"] noop_guards [of ex_world 0 "''height''"]
  by (simp add: ex_heap_world ex_heap_def john_def get_field_def)

text \<open>
  C4, as stated, fails for \<open>update\<close> with a function: \<open>has\<close> is asked after the function
  has run, so a function that itself adds the untracked entity to the World makes \<open>update\<close>
  call \<open>evaluate\<close>. Here entity 2 is untracked; the function adds it (the nested index
  \<open>with(name).with(age)\<close> admits it) and returns \<open>{age: undefined}\<close>; \<open>update\<close> merges the
  record and then runs \<open>evaluate\<close>, which evicts the entity from the nested index.
\<close>

theorem untracked_update_counterexample:
  "\<not> has ex_world 2 \<and>
   archetypes (apply_update ex_world 2 (UpdateFun add_and_clear_age)) =
     [Archetype with_name [0, 1, 2] [Archetype (both with_name with_age) [0, 2] []]] \<and>
   update ex_world 2 (UpdateFun add_and_clear_age) =
     evaluate (apply_update ex_world 2 (UpdateFun add_and_clear_age)) 2 None \<and>
   archetypes (update ex_world 2 (UpdateFun add_and_clear_age)) =
     [Archetype with_name [0, 1, 2] [Archetype (both with_name with_age) [0] []]] \<and>
   length (events (update ex_world 2 (UpdateFun add_and_clear_age))) =
     Suc (length (events (apply_update ex_world 2 (UpdateFun add_and_clear_age))))"
proof -
  have h: "\<not> has ex_world 2" by (simp add: has_def ex_entities)
  have ap: "apply_update ex_world 2 (UpdateFun add_and_clear_age) =
      put_entity (add ex_world 2) 2 (assign (heap ex_world 2) [''age'' \<mapsto> Undefined])"
    by (simp add: apply_update_def add_and_clear_age_def add_ids)
  have tracked: "has (apply_update ex_world 2 (UpdateFun add_and_clear_age)) 2"
    by (simp add: ap has_def put_entity_fields add_entities)
  have before: "archetypes (apply_update ex_world 2 (UpdateFun add_and_clear_age)) =
     [Archetype with_name [0, 1, 2] [Archetype (both with_name with_age) [0, 2] []]]"
    by (simp add: ap put_entity_fields add_archetypes has_def ex_entities ex_archetypes
          ex_heap_world ex_heap_def john_def matches_def present_def get_field_def
          with_name_def with_age_def both_def)
  from tracked have up: "update ex_world 2 (UpdateFun add_and_clear_age) =
     evaluate (apply_update ex_world 2 (UpdateFun add_and_clear_age)) 2 None"
    by (simp add: update_def)
  have hp: "heap (apply_update ex_world 2 (UpdateFun add_and_clear_age)) 2 =
      john(''age'' \<mapsto> Undefined)"
    by (simp add: ap put_entity_fields assign_def ex_heap_world ex_heap_def)
  have after: "archetypes (update ex_world 2 (UpdateFun add_and_clear_age)) =
     [Archetype with_name [0, 1, 2] [Archetype (both with_name with_age) [0] []]]"
    by (simp add: up evaluate_archetypes tracked before hp john_def matches_def present_def
          get_field_def with_name_def with_age_def both_def Let_def)
  have evs: "length (events (update ex_world 2 (UpdateFun add_and_clear_age))) =
     Suc (length (events (apply_update ex_world 2 (UpdateFun add_and_clear_age))))"
    by (simp add: up evaluate_events tracked before hp john_def matches_def present_def
          get_field_def with_name_def with_age_def both_def Let_def)
  from h before up after evs show ?thesis by blast
qed

text \<open>
  C4, amended: on an entity the World does not track, \<open>update\<close> without argument, with a
  component name and value or with a partial record, \<open>addComponent\<close> of an absent component
  and \<open>removeComponent\<close> of a present one only change the entity object: the field is set,
  the record is merged over the fields, the field is deleted, and the rest of the state
  (buckets, events, identity table) is as before, so \<open>evaluate\<close> has not run. \<open>update\<close>
  with a function does the same whenever the entity is untracked once the function has
  run: the result is the state the function leaves, with the returned record merged over
  the entity's fields. That is so in particular for a function that only touches the
  entity it is given.
\<close>

theorem untracked_only_mutates:
  "(\<not> has w e \<longrightarrow>
      update w e NoUpdate = w \<and>
      update w e (UpdateComponent c v) = w\<lparr> heap := (heap w)(e := (heap w e)(c \<mapsto> v)) \<rparr> \<and>
      update w e (UpdatePartial p) = w\<lparr> heap := (heap w)(e := heap w e ++ p) \<rparr> \<and>
      (get_field (heap w e) c = Undefined \<longrightarrow>
         addComponent w e c v = w\<lparr> heap := (heap w)(e := (heap w e)(c \<mapsto> v)) \<rparr>) \<and>
      (get_field (heap w e) c \<noteq> Undefined \<longrightarrow>
         removeComponent w e c = w\<lparr> heap := (heap w)(e := (heap w e)(c := None)) \<rparr>)) \<and>
   (fn w = (w', None) \<and> \<not> has w' e \<longrightarrow> update w e (UpdateFun fn) = w') \<and>
   (fn w = (w', Some p) \<and> \<not> has w' e \<longrightarrow>
      update w e (UpdateFun fn) = w'\<lparr> heap := (heap w')(e := heap w' e ++ p) \<rparr>) \<and>
   (\<not> has w e \<and> f (heap w e) = (ob, None) \<longrightarrow>
      update w e (UpdateFun (on_entity e f)) = w\<lparr> heap := (heap w)(e := ob) \<rparr>) \<and>
   (\<not> has w e \<and> f (heap w e) = (ob, Some p) \<longrightarrow>
      update w e (UpdateFun (on_entity e f)) = w\<lparr> heap := (heap w)(e := ob ++ p) \<rparr>)"
proof (intro conjI impI)
  assume "\<not> has w e"
  then show "update w e NoUpdate = w"
    by (simp add: update_def apply_update_def)
next
  assume "\<not> has w e"
  then show "update w e (UpdateComponent c v) =
      w\<lparr> heap := (heap w)(e := (heap w e)(c \<mapsto> v)) \<rparr>"
    by (simp add: update_def apply_update_def has_put_entity)
       (simp add: put_entity_def set_field_def)
next
  assume "\<not> has w e"
  then show "update w e (UpdatePartial p) = w\<lparr> heap := (heap w)(e := heap w e ++ p) \<rparr>"
    by (simp add: update_def apply_update_def has_put_entity)
       (simp add: put_entity_def assign_def)
next
  assume "\<not> has w e" "get_field (heap w e) c = Undefined"
  then show "addComponent w e c v = w\<lparr> heap := (heap w)(e := (heap w e)(c \<mapsto> v)) \<rparr>"
    by (simp add: addComponent_def has_put_entity)
       (simp add: put_entity_def set_field_def)
next
  assume "\<not> has w e" "get_field (heap w e) c \<noteq> Undefined"
  then show "removeComponent w e c = w\<lparr> heap := (heap w)(e := (heap w e)(c := None)) \<rparr>"
    by (simp add: removeComponent_def)
       (simp add: put_entity_def delete_field_def)
next
  assume "fn w = (w', None) \<and> \<not> has w' e"
  then show "update w e (UpdateFun fn) = w'"
    by (simp add: update_def apply_update_def)
next
  assume "fn w = (w', Some p) \<and> \<not> has w' e"
  then show "update w e (UpdateFun fn) = w'\<lparr> heap := (heap w')(e := heap w' e ++ p) \<rparr>"
    by (simp add: update_def apply_update_def has_put_entity)
       (simp add: put_entity_def assign_def)
next
  assume "\<not> has w e \<and> f (heap w e) = (ob, None)"
  then show "update w e (UpdateFun (on_entity e f)) = w\<lparr> heap := (heap w)(e := ob) \<rparr>"
    by (simp add: update_def apply_update_def on_entity_def has_put_entity)
       (simp add: put_entity_def)
next
  assume "\<not> has w e \<and> f (heap w e) = (ob, Some p)"
  then show "update w e (UpdateFun (on_entity e f)) = w\<lparr> heap := (heap w)(e := ob ++ p) \<rparr>"
    by (simp add: update_def apply_update_def on_entity_def has_put_entity)
       (simp add: put_entity_def assign_def)
qed

theorem untracked_only_mutates_witness:
  "\<not> has ex_world 2 \<and>
   get_field (heap ex_world 2) ''height'' = Undefined \<and>
   get_field (heap ex_world 2) ''age'' \<noteq> Undefined \<and>
   update ex_world 2 NoUpdate = ex_world \<and>
   update ex_world 2 (UpdateComponent ''name'' (Str ''Jane'')) =
     ex_world\<lparr> heap := (heap ex_world)(2 := (heap ex_world 2)(''name'' \<mapsto> Str ''Jane'')) \<rparr> \<and>
   update ex_world 2 (UpdatePartial [''height'' \<mapsto> Num 180]) =
     ex_world\<lparr> heap := (heap ex_world)(2 := heap ex_world 2 ++ [''height'' \<mapsto> Num 180]) \<rparr> \<and>
   addComponent ex_world 2 ''height'' (Num 180) =
     ex_world\<lparr> heap := (heap ex_world)(2 := (heap ex_world 2)(''height'' \<mapsto> Num 180)) \<rparr> \<and>
   removeComponent ex_world 2 ''age'' =
     ex_world\<lparr> heap := (heap ex_world)(2 := (heap ex_world 2)(''age'' := None)) \<rparr> \<and>
   rename_jane (heap ex_world 2) =
     (john(''name'' \<mapsto> Str ''Jane''), Some [''height'' \<mapsto> Num 180]) \<and>
   update ex_world 2 (UpdateFun (on_entity 2 rename_jane)) =
     ex_world\<lparr> heap := (heap ex_world)
       (2 := john(''name'' \<mapsto> Str ''Jane'') ++ [''height'' \<mapsto> Num 180]) \<rparr> \<and>
   get_field (heap (update ex_world 2 (UpdateFun (on_entity 2 rename_jane))) 2) ''name'' =
     Str ''Jane'' \<and>
   get_field (heap (update ex_world 2 (UpdateFun (on_entity 2 rename_jane))) 2) ''height'' =
     Num 180"
proof -
  have h1: "\<not> has ex_world 2" by (simp add: has_def ex_entities)
  have h2: "get_field (heap ex_world 2) ''height'' = Undefined"
    and h3: "get_field (heap ex_world 2) ''age'' \<noteq> Undefined"
    by (simp_all add: ex_heap_world ex_heap_def john_def get_field_def)
  have h4: "rename_jane (heap ex_world 2) =
      (john(''name'' \<mapsto> Str ''Jane''), Some [''height'' \<mapsto> Num 180])"
    by (simp add: rename_jane_def ex_heap_world ex_heap_def)
  note a = untracked_only_mutates [where w = ex_world and e = 2 and c = "''name''"
      and v = "Str ''Jane''" and p = "[''height'' \<mapsto> Num 180]"]
  note b = untracked_only_mutates [where w = ex_world and e = 2 and c = "''height''"
      and v = "Num 180"]
  note c = untracked_only_mutates [where w = ex_world and e = 2 and c = "''age''"]
  note d = untracked_only_mutates [where w = ex_world and e = 2 and f = rename_jane
      and ob = "john(''name'' \<mapsto> Str ''Jane'')" and p = "[''height'' \<mapsto> Num 180]"]
  from h1 a have c1: "update ex_world 2 NoUpdate = ex_world" by blast
  from h1 a have c2: "update ex_world 2 (UpdateComponent ''name'' (Str ''Jane'')) =
     ex_world\<lparr> heap := (heap ex_world)(2 := (heap ex_world 2)(''name'' \<mapsto> Str ''Jane'')) \<rparr>"
    by blast
  from h1 a have c3: "update ex_world 2 (UpdatePartial [''height'' \<mapsto> Num 180]) =
     ex_world\<lparr> heap := (heap ex_world)(2 := heap ex_world 2 ++ [''height'' \<mapsto> Num 180]) \<rparr>"
    by blast
  from h1 h2 b have c4: "addComponent ex_world 2 ''height'' (Num 180) =
     ex_world\<lparr> heap := (heap ex_world)(2 := (heap ex_world 2)(''height'' \<mapsto> Num 180)) \<rparr>"
    by blast
  from h1 h3 c have c5: "removeComponent ex_world 2 ''age'' =
     ex_world\<lparr> heap := (heap ex_world)(2 := (heap ex_world 2)(''age'' := None)) \<rparr>"
    by blast
  from h1 h4 d have c6: "update ex_world 2 (UpdateFun (on_entity 2 rename_jane)) =
     ex_world\<lparr> heap := (heap ex_world)
       (2 := john(''name'' \<mapsto> Str ''Jane'') ++ [''height'' \<mapsto> Num 180]) \<rparr>"
    by blast
  have c7: "get_field (heap (update ex_world 2 (UpdateFun (on_entity 2 rename_jane))) 2) ''name'' =
     Str ''Jane''"
    and c8: "get_field (heap (update ex_world 2 (UpdateFun (on_entity 2 rename_jane))) 2)
      ''height'' = Num 180"
    by (simp_all add: c6 get_field_def john_def)
  from h1 h2 h3 h4 c1 c2 c3 c4 c5 c6 c7 c8 show ?thesis by blast
qed

text \<open>
  C3: when the component is an own field of the entity holding \<open>undefined\<close>,
  \<open>addComponent\<close> does what it does when the field was never set: the result is the same
  state as on the entity with the field deleted first; the value is assigned, and
  \<open>evaluate\<close> runs if the entity is tracked. Presence is decided by the value read, not by
  the field being an own field.
\<close>

theorem explicit_undefined_is_absent:
  assumes "heap w e c = Some Undefined"
  shows "addComponent w e c v = addComponent (put_entity w e (delete_field (heap w e) c)) e c v \<and>
         addComponent w e c v =
           (let w1 = w\<lparr> heap := (heap w)(e := set_field (heap w e) c v) \<rparr>
            in if has w e then evaluate w1 e None else w1) \<and>
         get_field (heap (addComponent w e c v) e) c = v"
  using assms
  apply (simp add: addComponent_def has_put_entity Let_def get_field_def evaluate_heap)
  apply (simp add: put_entity_def set_field_def delete_field_def has_def)
  done

theorem explicit_undefined_is_absent_witness:
  "heap ex_world 1 ''age'' = Some Undefined \<and>
   addComponent ex_world 1 ''age'' (Num 28) =
     addComponent (put_entity ex_world 1 (delete_field (heap ex_world 1) ''age'')) 1 ''age'' (Num 28) \<and>
   get_field (heap (addComponent ex_world 1 ''age'' (Num 28)) 1) ''age'' = Num 28"
proof -
  have h: "heap ex_world 1 ''age'' = Some Undefined"
    by (simp add: ex_heap_world ex_heap_def jane_def)
  from h explicit_undefined_is_absent [OF h, of "Num 28"] show ?thesis
    by blast
qed

text \<open>
  C8: \<open>add\<close> is idempotent: adding an entity that is already a member gives back the
  same state, so the sequence of entities has the same length and content and no second
  entity-added event is logged.
\<close>

theorem add_idempotent:
  "add (add w e) e = add w e \<and> (has w e \<longrightarrow> add w e = w)"
proof -
  have "has (add w e) e" by (simp add: has_def add_entities)
  then show ?thesis by (simp add: add_def)
qed

theorem add_idempotent_witness:
  "has ex_world 0 \<and> add ex_world 0 = ex_world \<and> add (add ex_world 2) 2 = add ex_world 2"
  using add_idempotent [of ex_world 0] add_idempotent [of ex_world 2]
  by (simp add: has_def ex_entities)




text \<open>
  C9: in every state reached from a new World by the public operations, the two identity
  maps are inverse to each other (\<open>entityToId\<close> maps \<open>e\<close> to \<open>n\<close> iff \<open>idToEntity\<close> maps
  \<open>n\<close> to \<open>e\<close>) and every id stored is below \<open>nextId\<close>; each public operation keeps it
  so.
\<close>

theorem identity_maps_inverse:
  "id_inv (run (new_World h es) ops) \<and> (id_inv w \<longrightarrow> id_inv (step w op))"
  by (simp add: id_inv_run id_inv_new id_inv_step)

theorem identity_maps_inverse_witness:
  "id_inv ex_world \<and> entityToId ex_world 0 = Some 0 \<and> id_inv (step ex_world (Id 1)) \<and>
   entityToId (step ex_world (Id 1)) 1 = Some 1 \<and> nextId (step ex_world (Id 1)) = 2"
proof -
  have h: "id_inv ex_world"
    by (auto simp: id_inv_def ex_ids split: if_splits)
  have a: "entityToId (step ex_world (Id 1)) 1 = Some 1 \<and> nextId (step ex_world (Id 1)) = 2"
    by (simp add: id_w_def has_def ex_entities ex_ids)
  from h a identity_maps_inverse [of ex_heap "[]" "[]" ex_world "Id 1"] show ?thesis
    by (simp add: ex_ids)
qed

text \<open>
  C6: \<open>id\<close> returns \<open>undefined\<close> for an entity that is not tracked. For a tracked entity
  without an id it assigns the current value of the counter and increments the counter.
  Once \<open>id\<close> has returned \<open>n\<close> for an entity, it returns \<open>n\<close> again after any operations
  during which the entity stays tracked. In a state reached from a new World, an id then
  given to another entity differs from \<open>n\<close>, and the first call after an entity is added
  returns the value of the counter.
\<close>

theorem id_lazy_stable_distinct:
  "(\<not> has w e \<longrightarrow> id_w w e = (w, None)) \<and>
   (has w e \<and> entityToId w e = None \<longrightarrow>
      id_w w e =
        (w\<lparr> entityToId := (entityToId w)(e \<mapsto> nextId w),
            idToEntity := (idToEntity w)(nextId w \<mapsto> e),
            nextId := nextId w + 1 \<rparr>, Some (nextId w))) \<and>
   (id_w w e = (wa, Some n) \<and> stays_tracked wa e ops \<longrightarrow>
      id_w (run wa ops) e = (run wa ops, Some n)) \<and>
   (id_w (run (new_World h es) pre) e = (wa, Some n) \<and> stays_tracked wa e ops \<and>
    e' \<noteq> e \<and> id_w (run wa ops) e' = (wb, Some n') \<longrightarrow> n' \<noteq> n) \<and>
   (\<not> has (run (new_World h es) pre) e \<longrightarrow>
      snd (id_w (add (run (new_World h es) pre) e) e) = Some (nextId (run (new_World h es) pre)))"
proof (intro conjI impI)
  show "id_w w e = (w, None)" if "\<not> has w e"
    using that by (simp add: id_w_def)
next
  assume "has w e \<and> entityToId w e = None"
  then show "id_w w e =
        (w\<lparr> entityToId := (entityToId w)(e \<mapsto> nextId w),
            idToEntity := (idToEntity w)(nextId w \<mapsto> e),
            nextId := nextId w + 1 \<rparr>, Some (nextId w))"
    by (simp add: id_w_def)
next
  assume a: "id_w w e = (wa, Some n) \<and> stays_tracked wa e ops"
  then have "id_w w e = (wa, Some n)" by simp
  then have "entityToId wa e = Some n" by (simp add: id_w_Some)
  with a have "entityToId (run wa ops) e = Some n" by (simp add: id_kept_run)
  moreover from a have "has (run wa ops) e" by (simp add: stays_tracked_run)
  ultimately show "id_w (run wa ops) e = (run wa ops, Some n)" by (simp add: id_w_known)
next
  assume a: "id_w (run (new_World h es) pre) e = (wa, Some n) \<and> stays_tracked wa e ops \<and>
    e' \<noteq> e \<and> id_w (run wa ops) e' = (wb, Some n')"
  let ?w0 = "run (new_World h es) pre"
  from a have "id_w ?w0 e = (wa, Some n)" by simp
  from id_w_Some[OF this] have wa: "entityToId wa e = Some n" "wa = fst (id_w ?w0 e)"
    by blast+
  have "id_inv ?w0" by (simp add: id_inv_run id_inv_new)
  then have "id_inv wa" unfolding wa(2) by (rule id_inv_id_w)
  then have "id_inv (run wa ops)" by (rule id_inv_run)
  then have "id_inv (fst (id_w (run wa ops) e'))" by (rule id_inv_id_w)
  moreover from a have "id_w (run wa ops) e' = (wb, Some n')" by simp
  from id_w_Some[OF this] have wb: "entityToId wb e' = Some n'" "wb = fst (id_w (run wa ops) e')"
    by blast+
  ultimately have inv2: "id_inv wb" by simp
  from a wa have "entityToId (run wa ops) e = Some n" by (simp add: id_kept_run)
  with a have "entityToId wb e = Some n" unfolding wb(2) by (simp add: id_w_other)
  with inv2 wb(1) a show "n' \<noteq> n" by (auto dest: id_inv_inj)
next
  let ?w0 = "run (new_World h es) pre"
  assume a: "\<not> has ?w0 e"
  have "ids_tracked ?w0" by (simp add: ids_tracked_run ids_tracked_new)
  with a have "entityToId ?w0 e = None" unfolding ids_tracked_def by (cases "entityToId ?w0 e") auto
  moreover have "has (add ?w0 e) e" by (simp add: has_def add_entities)
  ultimately show "snd (id_w (add ?w0 e) e) = Some (nextId ?w0)"
    by (simp add: id_w_def add_ids)
qed

theorem id_lazy_stable_distinct_witness:
  "\<not> has ex_world 2 \<and> id_w ex_world 2 = (ex_world, None) \<and>
   has ex_world 1 \<and> entityToId ex_world 1 = None \<and> snd (id_w ex_world 1) = Some 1 \<and>
   id_w ex_world 0 = (ex_world, Some 0) \<and> stays_tracked ex_world 0 [Remove 1, Add 1] \<and>
   id_w (run ex_world [Remove 1, Add 1]) 0 = (run ex_world [Remove 1, Add 1], Some 0) \<and>
   id_w (run ex_world [Remove 1, Add 1]) 1 =
     (fst (id_w (run ex_world [Remove 1, Add 1]) 1), Some 1) \<and> (1::nat) \<noteq> 0 \<and>
   snd (id_w (add ex_world 2) 2) = Some (nextId ex_world) \<and> nextId ex_world = 1"
proof -
  let ?ops = "[Remove 1, Add 1]"
  note inst = id_lazy_stable_distinct [folded ex_world_def]
  have h1: "\<not> has ex_world 2" by (simp add: has_def ex_entities)
  have h2: "has ex_world 1 \<and> entityToId ex_world 1 = None"
    by (simp add: has_def ex_entities ex_ids)
  have h3: "id_w ex_world 0 = (ex_world, Some 0)"
    by (simp add: id_w_def has_def ex_entities ex_ids)
  have h4: "stays_tracked ex_world 0 ?ops"
    by (simp add: has_def ex_entities op_fields)
  have h5: "id_w (run ex_world ?ops) 1 = (fst (id_w (run ex_world ?ops) 1), Some 1)"
    by (rule prod_eqI)
       (simp_all add: run_def id_w_def has_def ex_entities ex_ids op_fields forget_id_def)
  have c1: "id_w ex_world 2 = (ex_world, None)"
    using h1 inst [where w = ex_world and e = 2] by blast
  have c2: "snd (id_w ex_world 1) = Some 1"
    using h2 inst [where w = ex_world and e = 1] by (simp add: ex_ids)
  have c3: "id_w (run ex_world ?ops) 0 = (run ex_world ?ops, Some 0)"
    using h3 h4 inst [where w = ex_world and e = 0 and wa = ex_world and n = 0 and ops = ?ops]
    by blast
  have c4: "(1::nat) \<noteq> 0"
    using h3 h4 h5
      id_lazy_stable_distinct [where h = ex_heap and es = "[]"
        and pre = "[ArchetypeOf [] with_name, ArchetypeOf [0] with_age, Add 0, Add 1, Id 0]"
        and e = 0 and wa = ex_world and n = 0 and ops = ?ops and e' = 1
        and wb = "fst (id_w (run ex_world ?ops) 1)" and n' = 1, folded ex_world_def]
    by blast
  have c5: "snd (id_w (add ex_world 2) 2) = Some (nextId ex_world)"
    using h1
      id_lazy_stable_distinct [where h = ex_heap and es = "[]"
        and pre = "[ArchetypeOf [] with_name, ArchetypeOf [0] with_age, Add 0, Add 1, Id 0]"
        and e = 2, folded ex_world_def]
    by blast
  have v: "nextId ex_world = 1" by (rule ex_ids)
  from h1 h2 h3 h4 h5 c1 c2 c3 c4 c5 v show ?thesis by blast
qed

text \<open>
  C7: when \<open>id(e)\<close> has returned \<open>n\<close> in a state reached from a new World, then after any
  further operations and \<open>remove(e)\<close>, \<open>entity(n)\<close> and \<open>id(e)\<close> are \<open>undefined\<close>; whatever
  follows, \<open>id(e)\<close> never returns \<open>n\<close> again, and after \<open>add(e)\<close> it returns an id
  different from \<open>n\<close>.
\<close>

theorem removed_id_not_reused:
  assumes "id_w (run (new_World h es) pre) e = (wa, Some n)"
  shows "entity (remove (run wa mid) e) n = None \<and>
         id_w (remove (run wa mid) e) e = (remove (run wa mid) e, None) \<and>
         snd (id_w (run (remove (run wa mid) e) post) e) \<noteq> Some n \<and>
         (\<exists>m. snd (id_w (add (remove (run wa mid) e) e) e) = Some m \<and> m \<noteq> n)"
proof -
  let ?w0 = "run (new_World h es) pre"
  let ?w2 = "run wa mid"
  let ?w3 = "remove ?w2 e"
  from id_w_Some[OF assms] have "entityToId wa e = Some n" "wa = fst (id_w ?w0 e)"
    by blast+
  then have wa: "entityToId wa e = Some n" "wa = step ?w0 (Id e)"
    by simp_all
  have "id_inv ?w0" "ids_tracked ?w0"
    by (simp_all add: id_inv_run id_inv_new ids_tracked_run ids_tracked_new)
  then have inv1: "id_inv wa" "ids_tracked wa"
    unfolding wa(2) by (simp_all only: id_inv_step ids_tracked_step)
  from inv1(1) wa(1) have own1: "n < nextId wa" "idToEntity wa n = Some e"
    by (simp_all add: id_inv_def)
  have inv2: "id_inv ?w2" "ids_tracked ?w2"
    using inv1 by (simp_all add: id_inv_run ids_tracked_run)
  from own1 have own2: "n < nextId ?w2"
    "idToEntity ?w2 n = None \<or> idToEntity ?w2 n = Some e"
    using own_id_run[of n wa e mid] by simp_all
  from inv2 own2(2) have dead3: "idToEntity ?w3 n = None" by (rule remove_kills_id)
  from own2(1) have lt3: "n < nextId ?w3" by (simp add: remove_ids)
  from inv2(1) have inv3: "id_inv ?w3" by (rule id_inv_remove)
  have "\<not> has ?w3 e" by (simp add: has_def remove_entities)
  then have gone: "id_w ?w3 e = (?w3, None)" by (simp add: id_w_def)
  have later: "snd (id_w (run ?w3 ops) e) \<noteq> Some n" for ops
  proof -
    from dead_id_run[OF lt3 dead3, of ops] inv3 show ?thesis
      by (intro id_w_not_dead) (simp_all add: id_inv_run)
  qed
  have "has (add ?w3 e) e" by (simp add: has_def add_entities)
  then obtain m where m: "snd (id_w (add ?w3 e) e) = Some m" using id_w_tracked by blast
  from later[of "[Add e]"] m have "m \<noteq> n" by (simp add: run_def)
  with m dead3 gone later[of post] show ?thesis by (simp add: entity_def)
qed

theorem removed_id_not_reused_witness:
  "id_w ex_world 0 = (ex_world, Some 0) \<and>
   entity (remove (run ex_world [Id 1]) 0) 0 = None \<and>
   id_w (remove (run ex_world [Id 1]) 0) 0 = (remove (run ex_world [Id 1]) 0, None) \<and>
   snd (id_w (run (remove (run ex_world [Id 1]) 0) [Add 0]) 0) \<noteq> Some 0 \<and>
   snd (id_w (add (remove (run ex_world [Id 1]) 0) 0) 0) = Some 2"
proof -
  have h: "id_w ex_world 0 = (ex_world, Some 0)"
    by (simp add: id_w_def has_def ex_entities ex_ids)
  have v: "snd (id_w (add (remove (run ex_world [Id 1]) 0) 0) 0) = Some 2"
    by (simp add: run_def id_w_def has_def ex_entities ex_ids op_fields forget_id_def)
  from h v removed_id_not_reused [where h = ex_heap and es = "[]"
      and pre = "[ArchetypeOf [] with_name, ArchetypeOf [0] with_age, Add 0, Add 1, Id 0]"
      and e = 0 and wa = ex_world and n = 0 and mid = "[Id 1]" and post = "[Add 0]",
      folded ex_world_def, OF h]
  show ?thesis by blast
qed

text \<open>
  C1: for a tracked entity with the component present, \<open>removeComponent\<close> first runs
  \<open>evaluate\<close> with the entity and a copy of its fields lacking the component, and only then
  deletes the field: the result is the state after \<open>evaluate\<close> with the field deleted.
  \<open>evaluate\<close> leaves the entity objects as they are, so every event fired during the call
  is handed the entity itself, still carrying the old value of the component. After the
  call, reading the component gives the missing-sentinel.
\<close>

theorem removeComponent_future_check:
  assumes "has w e" and "get_field (heap w e) c \<noteq> Undefined"
  shows "removeComponent w e c =
           put_entity (evaluate w e (Some (delete_field (heap w e) c))) e
             (delete_field (heap w e) c) \<and>
         heap (evaluate w e (Some (delete_field (heap w e) c))) = heap w \<and>
         events (removeComponent w e c) =
           events w @ drop (length (events w)) (events (removeComponent w e c)) \<and>
         list_all (\<lambda>ev. ev_entity ev = e \<and> get_field (ev_fields ev) c = get_field (heap w e) c)
           (drop (length (events w)) (events (removeComponent w e c))) \<and>
         get_field (heap (removeComponent w e c) e) c = Undefined"
proof -
  let ?w1 = "evaluate w e (Some (delete_field (heap w e) c))"
  from assms have eq: "removeComponent w e c = put_entity ?w1 e (delete_field (heap w e) c)"
    by (simp add: removeComponent_def evaluate_heap)
  have same: "heap ?w1 = heap w" by (rule evaluate_heap)
  have evs: "events ?w1 = events (removeComponent w e c)"
    by (simp add: eq put_entity_fields)
  note new = evaluate_new_events [of w e "Some (delete_field (heap w e) c)", unfolded evs]
  from new have pre: "events (removeComponent w e c) =
      events w @ drop (length (events w)) (events (removeComponent w e c))"
    by (rule conjunct1)
  from new [THEN conjunct2]
  have old: "list_all (\<lambda>ev. ev_entity ev = e \<and> get_field (ev_fields ev) c = get_field (heap w e) c)
      (drop (length (events w)) (events (removeComponent w e c)))"
    by (simp add: list_all_iff)
  have gone: "get_field (heap (removeComponent w e c) e) c = Undefined"
    by (simp add: eq put_entity_fields delete_field_def get_field_def)
  from eq same pre old gone show ?thesis
    by (intro conjI)
qed

theorem removeComponent_future_check_witness:
  "has ex_world 0 \<and> get_field (heap ex_world 0) ''age'' \<noteq> Undefined \<and>
   drop (length (events ex_world)) (events (removeComponent ex_world 0 ''age'')) =
     [EntityRemoved [0, 0] 0 john] \<and>
   list_all (\<lambda>ev. ev_entity ev = 0 \<and>
       get_field (ev_fields ev) ''age'' = get_field (heap ex_world 0) ''age'')
     (drop (length (events ex_world)) (events (removeComponent ex_world 0 ''age''))) \<and>
   get_field (heap ex_world 0) ''age'' = Num 30 \<and>
   get_field (heap (removeComponent ex_world 0 ''age'') 0) ''age'' = Undefined"
proof -
  have h1: "has ex_world 0" by (simp add: has_def ex_entities)
  have h2: "get_field (heap ex_world 0) ''age'' \<noteq> Undefined"
    and v: "get_field (heap ex_world 0) ''age'' = Num 30"
    by (simp_all add: ex_heap_world ex_heap_def john_def get_field_def)
  have evs: "drop (length (events ex_world)) (events (removeComponent ex_world 0 ''age'')) =
     [EntityRemoved [0, 0] 0 john]"
    by (simp add: removeComponent_def put_entity_fields evaluate_events ex_entities
          ex_archetypes ex_heap_world ex_heap_def john_def has_def get_field_def Let_def
          delete_field_def matches_def present_def with_name_def with_age_def both_def)
  from h1 h2 v evs removeComponent_future_check [OF h1 h2] show ?thesis
    by blast
qed

text \<open>
  C10: in a state reached from a new World, for a tracked entity with the component
  absent, \<open>addComponent\<close> with the value \<open>undefined\<close> passes the guard: the field is
  assigned \<open>undefined\<close> (the component stays absent) and \<open>evaluate\<close> runs all the same.
  Afterwards no index whose query requires the component holds the entity.
\<close>

theorem addComponent_undefined_reindexes:
  assumes "w = run (new_World h es) pre" and "has w e" and "get_field (heap w e) c = Undefined"
  shows "addComponent w e c Undefined =
           evaluate (put_entity w e (set_field (heap w e) c Undefined)) e None \<and>
         heap (addComponent w e c Undefined) e c = Some Undefined \<and>
         \<not> present (heap (addComponent w e c Undefined) e) c \<and>
         list_all (\<lambda>a. e \<notin> set (a_entities a))
           (filter (\<lambda>a. c \<in> set (q_with (a_query a)))
              (world_archetypes (addComponent w e c Undefined)))"
proof -
  from assms(1) have "subset_inv w" by (simp add: subset_inv_run subset_inv_new)
  then show ?thesis using assms(2,3) by (rule addComponent_undefined_subset)
qed

theorem addComponent_undefined_reindexes_witness:
  "subset_inv ex_world \<and> has ex_world 1 \<and> get_field (heap ex_world 1) ''age'' = Undefined \<and>
   heap (addComponent ex_world 1 ''age'' Undefined) 1 ''age'' = Some Undefined \<and>
   archetypes (addComponent ex_world 1 ''age'' Undefined) =
     [Archetype with_name [0, 1] [Archetype (both with_name with_age) [0] []]] \<and>
   list_all (\<lambda>a. 1 \<notin> set (a_entities a))
     (filter (\<lambda>a. ''age'' \<in> set (q_with (a_query a)))
        (world_archetypes (addComponent ex_world 1 ''age'' Undefined)))"
proof -
  have h1: "subset_inv ex_world"
    by (simp add: subset_inv_def ex_entities ex_archetypes)
  have h2: "has ex_world 1" by (simp add: has_def ex_entities)
  have h3: "get_field (heap ex_world 1) ''age'' = Undefined"
    by (simp add: ex_heap_world ex_heap_def jane_def get_field_def)
  have v: "archetypes (addComponent ex_world 1 ''age'' Undefined) =
     [Archetype with_name [0, 1] [Archetype (both with_name with_age) [0] []]]"
    by (simp add: addComponent_def put_entity_fields evaluate_archetypes ex_entities
          ex_archetypes ex_heap_world ex_heap_def jane_def has_def get_field_def Let_def
          set_field_def matches_def present_def with_name_def with_age_def both_def)
  from h1 h2 h3 v addComponent_undefined_reindexes [OF ex_world_def h2 h3] show ?thesis
    by blast
qed

end
